theory Spec2Isabelle
  imports Main "HOL-Library.Multiset"
begin

section \<open>Leaf helpers of \<^verbatim>\<open>shared/models.py\<close> and \<^verbatim>\<open>activity_scan_directory\<close>\<close>

subsection \<open>Strings\<close>

text \<open>
  Extensions are Python \<^verbatim>\<open>str\<close> values; they are modelled as \<^typ>\<open>string\<close>.
  \<^verbatim>\<open>str.lower()\<close> is modelled on the ASCII letters: \<open>A\<close> .. \<open>Z\<close> go to
  \<open>a\<close> .. \<open>z\<close>, every other character is kept.
\<close>

definition lower_char :: "char \<Rightarrow> char" where
  "lower_char c =
     (let n = (of_char c :: nat) in if 65 \<le> n \<and> n \<le> 90 then char_of (n + 32) else c)"

definition lower :: "string \<Rightarrow> string" where
  "lower s = map lower_char s"

subsection \<open>The extension tables\<close>

definition document_exts :: "string list" where
  "document_exts = [''.doc'', ''.docx'', ''.pdf'', ''.txt'', ''.rtf'', ''.odt'', ''.xls'',
     ''.xlsx'', ''.ppt'', ''.pptx'', ''.csv'']"

definition image_exts :: "string list" where
  "image_exts = [''.jpg'', ''.jpeg'', ''.png'', ''.gif'', ''.bmp'', ''.tiff'', ''.svg'',
     ''.ico'', ''.webp'', ''.raw'']"

definition video_exts :: "string list" where
  "video_exts = [''.mp4'', ''.avi'', ''.mkv'', ''.mov'', ''.wmv'', ''.flv'', ''.webm'', ''.m4v'']"

definition audio_exts :: "string list" where
  "audio_exts = [''.mp3'', ''.wav'', ''.flac'', ''.aac'', ''.ogg'', ''.wma'', ''.m4a'']"

definition archive_exts :: "string list" where
  "archive_exts = [''.zip'', ''.rar'', ''.7z'', ''.tar'', ''.gz'', ''.bz2'', ''.xz'']"

definition code_exts :: "string list" where
  "code_exts = [''.cs'', ''.js'', ''.ts'', ''.py'', ''.java'', ''.cpp'', ''.h'', ''.ps1'',
     ''.psm1'', ''.sh'', ''.json'', ''.xml'', ''.yaml'', ''.yml'']"

definition executable_exts :: "string list" where
  "executable_exts = [''.exe'', ''.dll'', ''.msi'', ''.bat'', ''.cmd'', ''.com'']"

definition database_exts :: "string list" where
  "database_exts = [''.sql'', ''.mdf'', ''.ldf'', ''.bak'', ''.db'', ''.sqlite'']"

definition log_exts :: "string list" where
  "log_exts = [''.log'', ''.evt'', ''.evtx'']"

definition temp_exts :: "string list" where
  "temp_exts = [''.tmp'', ''.temp'', ''.bak'', ''.swp'', ''.cache'']"

text \<open>\<^verbatim>\<open>get_file_category\<close> of \<^verbatim>\<open>shared/models.py\<close>: the chain of \<^verbatim>\<open>if\<close>/\<^verbatim>\<open>elif\<close> in
  the order of the source.\<close>

definition get_file_category :: "string \<Rightarrow> string" where
  "get_file_category extension =
     (let ext = lower extension in
      if List.member document_exts ext then ''Documents''
      else if List.member image_exts ext then ''Images''
      else if List.member video_exts ext then ''Videos''
      else if List.member audio_exts ext then ''Audio''
      else if List.member archive_exts ext then ''Archives''
      else if List.member code_exts ext then ''Code''
      else if List.member executable_exts ext then ''Executables''
      else if List.member database_exts ext then ''Databases''
      else if List.member log_exts ext then ''Logs''
      else if List.member temp_exts ext then ''Temporary''
      else ''Other'')"

text \<open>\<^verbatim>\<open>get_file_category\<close> of \<^verbatim>\<open>activity_scan_directory\<close>: the same chain with the
  tables written in place.\<close>

definition scan_get_file_category :: "string \<Rightarrow> string" where
  "scan_get_file_category extension =
     (let ext = lower extension in
      if List.member [''.doc'', ''.docx'', ''.pdf'', ''.txt'', ''.rtf'', ''.odt'', ''.xls'',
           ''.xlsx'', ''.ppt'', ''.pptx'', ''.csv''] ext then ''Documents''
      else if List.member [''.jpg'', ''.jpeg'', ''.png'', ''.gif'', ''.bmp'', ''.tiff'', ''.svg'',
           ''.ico'', ''.webp'', ''.raw''] ext then ''Images''
      else if List.member [''.mp4'', ''.avi'', ''.mkv'', ''.mov'', ''.wmv'', ''.flv'', ''.webm'',
           ''.m4v''] ext then ''Videos''
      else if List.member [''.mp3'', ''.wav'', ''.flac'', ''.aac'', ''.ogg'', ''.wma'', ''.m4a''] ext
        then ''Audio''
      else if List.member [''.zip'', ''.rar'', ''.7z'', ''.tar'', ''.gz'', ''.bz2'', ''.xz''] ext
        then ''Archives''
      else if List.member [''.cs'', ''.js'', ''.ts'', ''.py'', ''.java'', ''.cpp'', ''.h'', ''.ps1'',
           ''.psm1'', ''.sh'', ''.json'', ''.xml'', ''.yaml'', ''.yml''] ext then ''Code''
      else if List.member [''.exe'', ''.dll'', ''.msi'', ''.bat'', ''.cmd'', ''.com''] ext
        then ''Executables''
      else if List.member [''.sql'', ''.mdf'', ''.ldf'', ''.bak'', ''.db'', ''.sqlite''] ext
        then ''Databases''
      else if List.member [''.log'', ''.evt'', ''.evtx''] ext then ''Logs''
      else if List.member [''.tmp'', ''.temp'', ''.bak'', ''.swp'', ''.cache''] ext then ''Temporary''
      else ''Other'')"

text \<open>The tables with their labels, in the order in which the chain tests them.\<close>

definition category_tables :: "(string list \<times> string) list" where
  "category_tables =
     [(document_exts, ''Documents''), (image_exts, ''Images''), (video_exts, ''Videos''),
      (audio_exts, ''Audio''), (archive_exts, ''Archives''), (code_exts, ''Code''),
      (executable_exts, ''Executables''), (database_exts, ''Databases''), (log_exts, ''Logs''),
      (temp_exts, ''Temporary'')]"

text \<open>The reading of the specification: the label of the first table, in that order, that holds
  the extension, and \<open>Other\<close> when none does.\<close>

fun first_match :: "(string list \<times> string) list \<Rightarrow> string \<Rightarrow> string" where
  "first_match [] ext = ''Other''"
| "first_match ((tbl, label) # rest) ext =
     (if List.member tbl ext then label else first_match rest ext)"

subsection \<open>Buckets\<close>

definition get_age_bucket :: "int \<Rightarrow> string" where
  "get_age_bucket age_in_days =
     (if age_in_days \<le> 7 then ''0-7 days''
      else if age_in_days \<le> 30 then ''8-30 days''
      else if age_in_days \<le> 90 then ''31-90 days''
      else if age_in_days \<le> 180 then ''91-180 days''
      else if age_in_days \<le> 365 then ''181-365 days''
      else if age_in_days \<le> 730 then ''1-2 years''
      else if age_in_days \<le> 1825 then ''2-5 years''
      else ''5+ years'')"

definition KB :: int where "KB = 1024"
definition MB :: int where "MB = KB * 1024"
definition GB :: int where "GB = MB * 1024"

definition get_size_bucket :: "int \<Rightarrow> string" where
  "get_size_bucket size_bytes =
     (if size_bytes < KB then ''< 1 KB''
      else if size_bytes < MB then ''1 KB - 1 MB''
      else if size_bytes < 10 * MB then ''1 MB - 10 MB''
      else if size_bytes < 100 * MB then ''10 MB - 100 MB''
      else if size_bytes < 500 * MB then ''100 MB - 500 MB''
      else if size_bytes < GB then ''500 MB - 1 GB''
      else if size_bytes < 5 * GB then ''1 GB - 5 GB''
      else if size_bytes < 10 * GB then ''5 GB - 10 GB''
      else ''10+ GB'')"

text \<open>The threshold intervals of the specification, each with its label: a size bucket is the
  half-open interval \<open>[lo, hi)\<close> (no upper end for the last), an age bucket the interval
  \<open>(lo, hi]\<close> (no lower end for the first, no upper end for the last).\<close>

definition size_buckets :: "(int \<times> int option \<times> string) list" where
  "size_buckets =
     [(0, Some 1024, ''< 1 KB''),
      (1024, Some 1048576, ''1 KB - 1 MB''),
      (1048576, Some 10485760, ''1 MB - 10 MB''),
      (10485760, Some 104857600, ''10 MB - 100 MB''),
      (104857600, Some 524288000, ''100 MB - 500 MB''),
      (524288000, Some 1073741824, ''500 MB - 1 GB''),
      (1073741824, Some 5368709120, ''1 GB - 5 GB''),
      (5368709120, Some 10737418240, ''5 GB - 10 GB''),
      (10737418240, None, ''10+ GB'')]"

fun in_size_bucket :: "int \<Rightarrow> int \<times> int option \<times> string \<Rightarrow> bool" where
  "in_size_bucket s (lo, None, label) = (lo \<le> s)"
| "in_size_bucket s (lo, Some hi, label) = (lo \<le> s \<and> s < hi)"

definition age_buckets :: "(int option \<times> int option \<times> string) list" where
  "age_buckets =
     [(None, Some 7, ''0-7 days''),
      (Some 7, Some 30, ''8-30 days''),
      (Some 30, Some 90, ''31-90 days''),
      (Some 90, Some 180, ''91-180 days''),
      (Some 180, Some 365, ''181-365 days''),
      (Some 365, Some 730, ''1-2 years''),
      (Some 730, Some 1825, ''2-5 years''),
      (Some 1825, None, ''5+ years'')]"

fun in_age_bucket :: "int \<Rightarrow> int option \<times> int option \<times> string \<Rightarrow> bool" where
  "in_age_bucket a (lo, hi, label) =
     ((case lo of None \<Rightarrow> True | Some l \<Rightarrow> l < a) \<and> (case hi of None \<Rightarrow> True | Some h \<Rightarrow> a \<le> h))"


section \<open>The scan activity (\<^verbatim>\<open>activity_scan_directory\<close>)\<close>

subsection \<open>Inputs\<close>

text \<open>
  The input dictionaries. The main orchestrator's input, the input of the sub-orchestrator of
  one share and the input of one scan task share their keys, so each record extends the one
  before. Every key is present: the callers in this repository always write all of them, so the
  defaults of \<^verbatim>\<open>input_data.get\<close> are never taken.
\<close>

record base_config =
  execution_id :: string
  storage_account_name :: string
  storage_account_key :: string
  skip_hash_computation :: bool
  batch_size :: int
  max_file_size_for_hash_mb :: int
  exclude_patterns :: "string list"

record share_input = base_config +
  file_share_name :: string

record task_input = share_input +
  directory_path :: string

subsection \<open>The storage collaborator\<close>

text \<open>
  What the storage SDK answers for one directory. Time stamps are integers (microseconds since
  the epoch, UTC). A call that raises is \<open>Inl\<close> of the exception's message. The listing is an
  iterator: it yields \<open>entries\<close> and then, when \<open>failure\<close> is \<open>Some e\<close>, raises \<open>e\<close>; a
  directory that cannot be opened is \<open>Listing [] (Some e)\<close>. The type \<open>'c\<close> is the content
  of a file.
\<close>

record file_props =
  last_modified :: "int option"
  creation_time :: "int option"

record 'c item =
  item_name :: string
  is_directory :: bool
  item_size :: int
  file_properties :: "string + file_props"
  download_file :: "string + 'c"

datatype 'c listing = Listing (entries: "'c item list") (failure: "string option")

text \<open>
  The library functions and the clock of the activity: \<open>now\<close> is read once per scan,
  \<open>strftime fmt t\<close> formats a time stamp, \<open>md5_hexdigest\<close> is
  \<^verbatim>\<open>hashlib.md5(content).hexdigest()\<close>, \<open>splitext\<close> and \<open>fnmatch\<close> are the functions of
  \<^verbatim>\<open>os.path\<close> and \<^verbatim>\<open>fnmatch\<close>.
\<close>

record 'c env =
  now :: int
  strftime :: "string \<Rightarrow> int \<Rightarrow> string"
  md5_hexdigest :: "'c \<Rightarrow> string"
  splitext :: "string \<Rightarrow> string \<times> string"
  fnmatch :: "string \<Rightarrow> string \<Rightarrow> bool"

subsection \<open>Records and results\<close>

text \<open>A file record. The two derived floating-point fields \<^verbatim>\<open>FileSizeMB\<close> and
  \<^verbatim>\<open>FileSizeGB\<close> are left out.\<close>

record file_record =
  StorageAccount :: string
  FileShare :: string
  FilePath :: string
  FileName :: string
  FileExtension :: string
  FileSizeBytes :: int
  LastModified :: "string option"
  Created :: "string option"
  AgeInDays :: int
  FileHash :: string
  IsDuplicate :: string
  DuplicateCount :: int
  DuplicateGroupId :: string
  FileCategory :: string
  AgeBucket :: string
  SizeBucket :: string
  ScanTimestamp :: string
  ExecutionId :: string
  TimeGenerated :: "string option"

record 'r scan_result =
  result_directory_path :: string
  files_processed :: int
  bytes_processed :: int
  subdirectories :: "string list"
  file_records :: "'r list"
  errors :: "string list"

subsection \<open>Helpers\<close>

definition upper_char :: "char \<Rightarrow> char" where
  "upper_char c =
     (let n = (of_char c :: nat) in if 97 \<le> n \<and> n \<le> 122 then char_of (n - 32) else c)"

definition upper :: "string \<Rightarrow> string" where
  "upper s = map upper_char s"

fun is_file_excluded :: "'c env \<Rightarrow> string \<Rightarrow> string list \<Rightarrow> bool" where
  "is_file_excluded e filename [] = False"
| "is_file_excluded e filename (pattern # rest) =
     (if fnmatch e filename pattern then True else is_file_excluded e filename rest)"

text \<open>\<^verbatim>\<open>format_datetime\<close>: \<^verbatim>\<open>None\<close> stays \<^verbatim>\<open>None\<close>; otherwise the last three characters
  of the formatted time are cut and \<open>Z\<close> is appended.\<close>

definition format_datetime :: "'c env \<Rightarrow> int option \<Rightarrow> string option" where
  "format_datetime e dt =
     (case dt of
        None \<Rightarrow> None
      | Some t \<Rightarrow>
          (let s = strftime e ''%Y-%m-%dT%H:%M:%S.%f'' t in Some (take (length s - 3) s @ ''Z'')))"

text \<open>\<^verbatim>\<open>f"{directory_path}/{item_name}" if directory_path else item_name\<close>\<close>

definition join_path :: "string \<Rightarrow> string \<Rightarrow> string" where
  "join_path dir name = (if dir \<noteq> [] then dir @ ''/'' @ name else name)"

definition display_path :: "string \<Rightarrow> string" where
  "display_path dir = (if dir \<noteq> [] then dir else ''(root)'')"

text \<open>
  The hash of one file (lines 206 to 217 of the activity). The second component tells whether
  \<^verbatim>\<open>file_client.download_file()\<close> was called, that is, whether a hash was attempted.
\<close>

definition compute_file_hash ::
  "'c env \<Rightarrow> bool \<Rightarrow> int \<Rightarrow> int \<Rightarrow> string + 'c \<Rightarrow> string \<times> bool" where
  "compute_file_hash e skip_hash max_hash_size file_size download =
     (if \<not> skip_hash \<and> file_size \<le> max_hash_size \<and> file_size \<le> 10 * 1024 * 1024 then
        (case download of
           Inr content \<Rightarrow> (upper (md5_hexdigest e content), True)
         | Inl hash_error \<Rightarrow> (''ERROR'', True))
      else if \<not> skip_hash \<and> file_size > max_hash_size then (''SKIPPED_TOO_LARGE'', False)
      else (''SKIPPED'', False))"

text \<open>
  The body of the inner \<^verbatim>\<open>try\<close> for one file: \<open>Inl\<close> of the message when
  \<^verbatim>\<open>get_file_properties\<close> raises, else the record. The age is \<^verbatim>\<open>(now - lm_dt).days\<close>, the
  floor of the difference in days, and 0 when there is no last-modified time.
\<close>

definition process_file ::
  "'c env \<Rightarrow> task_input \<Rightarrow> 'c item \<Rightarrow> (string + file_record) \<times> bool" where
  "process_file e input_data it =
     (let file_path = join_path (directory_path input_data) (item_name it);
          file_size = item_size it
      in case file_properties it of
           Inl file_error \<Rightarrow> (Inl file_error, False)
         | Inr props \<Rightarrow>
             (let age_in_days =
                    (case last_modified props of
                       None \<Rightarrow> 0
                     | Some lm \<Rightarrow> (now e - lm) div (86400 * 1000000));
                  (file_hash, attempted) =
                    compute_file_hash e (skip_hash_computation input_data)
                      (max_file_size_for_hash_mb input_data * 1024 * 1024) file_size
                      (download_file it);
                  ext = snd (splitext e (item_name it))
              in (Inr \<lparr> StorageAccount = storage_account_name input_data,
                        FileShare = file_share_name input_data,
                        FilePath = file_path,
                        FileName = item_name it,
                        FileExtension = ext,
                        FileSizeBytes = file_size,
                        LastModified = format_datetime e (last_modified props),
                        Created = format_datetime e (creation_time props),
                        AgeInDays = age_in_days,
                        FileHash = file_hash,
                        IsDuplicate = ''Unknown'',
                        DuplicateCount = 0,
                        DuplicateGroupId = '''',
                        FileCategory = scan_get_file_category ext,
                        AgeBucket = get_age_bucket age_in_days,
                        SizeBucket = get_size_bucket file_size,
                        ScanTimestamp = strftime e ''%Y-%m-%d %H:%M:%S'' (now e),
                        ExecutionId = execution_id input_data,
                        TimeGenerated = format_datetime e (Some (now e)) \<rparr>, attempted)))"

text \<open>One turn of the loop over the listing.\<close>

definition scan_item ::
  "'c env \<Rightarrow> task_input \<Rightarrow> 'c item \<Rightarrow> file_record scan_result \<Rightarrow> file_record scan_result" where
  "scan_item e input_data it result =
     (if is_directory it then
        result\<lparr>subdirectories :=
          subdirectories result @ [join_path (directory_path input_data) (item_name it)]\<rparr>
      else if is_file_excluded e (item_name it) (exclude_patterns input_data) then result
      else
        (case fst (process_file e input_data it) of
           Inr record \<Rightarrow>
             result\<lparr>file_records := file_records result @ [record],
                    files_processed := files_processed result + 1,
                    bytes_processed := bytes_processed result + item_size it\<rparr>
         | Inl file_error \<Rightarrow>
             result\<lparr>errors := errors result
               @ [''Error processing file '' @ item_name it @ '': '' @ file_error]\<rparr>))"

fun scan_items ::
  "'c env \<Rightarrow> task_input \<Rightarrow> 'c item list \<Rightarrow> file_record scan_result \<Rightarrow> file_record scan_result"
  where
  "scan_items e input_data [] result = result"
| "scan_items e input_data (it # rest) result =
     scan_items e input_data rest (scan_item e input_data it result)"

text \<open>
  \<^verbatim>\<open>main\<close> of the activity. The outer \<^verbatim>\<open>except\<close> appends its message to the result as it
  stands when the listing raises.
\<close>

definition scan_directory_main ::
  "'c env \<Rightarrow> task_input \<Rightarrow> 'c listing \<Rightarrow> file_record scan_result" where
  "scan_directory_main e input_data l =
     (let result = \<lparr> result_directory_path = directory_path input_data,
                     files_processed = 0,
                     bytes_processed = 0,
                     subdirectories = [],
                     file_records = [],
                     errors = [] \<rparr>;
          result = scan_items e input_data (entries l) result
      in case failure l of
           None \<Rightarrow> result
         | Some err \<Rightarrow>
             result\<lparr>errors := errors result
               @ [''Error scanning directory '' @ display_path (directory_path input_data)
                  @ '': '' @ err]\<rparr>)"

section \<open>The sub-orchestrator of one share (\<^verbatim>\<open>orchestrator_file_share\<close>)\<close>

subsection \<open>Activities as recorded results\<close>

text \<open>
  The orchestrator sees its activities through their results. \<open>scan d\<close> is the result of
  \<^verbatim>\<open>activity_scan_directory\<close> for the directory \<open>d\<close>, \<open>None\<close> when the result is empty
  (falsy); a directory is dispatched at most once, so one result per path is all a run can
  read. \<open>sink k batch\<close> is the result of the \<open>k\<close>-th call of
  \<^verbatim>\<open>activity_send_to_log_analytics\<close>, made with \<open>batch\<close>. \<^verbatim>\<open>task_all\<close> returns the results
  in the order of the tasks.
\<close>

record send_result =
  success :: bool
  records_sent :: int
  message :: string

type_synonym 'r scan = "string \<Rightarrow> 'r scan_result option"

type_synonym 'r sink = "nat \<Rightarrow> 'r list \<Rightarrow> send_result option"

subsection \<open>State\<close>

text \<open>
  The local variables of the orchestrator function, and two logs of its effects: \<open>scanned\<close>
  holds the directories handed to the scan activity, \<open>delivered\<close> the batches handed to the
  delivery activity with the result of each call, both in the order of the calls.
\<close>

record 'r orch_state =
  directories_to_process :: "string list"
  processed_directories :: "string set"
  current_batch :: "'r list"
  total_files_processed :: int
  total_bytes_processed :: int
  total_batches_sent :: nat
  all_errors :: "string list"
  wave_number :: nat
  scanned :: "string list"
  delivered :: "('r list \<times> send_result option) list"

definition initial_state :: "'r orch_state" where
  "initial_state =
     \<lparr> directories_to_process = [''''],
       processed_directories = {},
       current_batch = [],
       total_files_processed = 0,
       total_bytes_processed = 0,
       total_batches_sent = 0,
       all_errors = [],
       wave_number = 0,
       scanned = [],
       delivered = [] \<rparr>"

definition max_parallel_dirs :: nat where
  "max_parallel_dirs = 10"

subsection \<open>Slices\<close>

text \<open>Python's \<^verbatim>\<open>xs[:n]\<close> and \<^verbatim>\<open>xs[n:]\<close> for an integer \<open>n\<close>: a negative \<open>n\<close> counts from
  the end.\<close>

definition slice_to :: "int \<Rightarrow> 'a list \<Rightarrow> 'a list" where
  "slice_to n xs = (if 0 \<le> n then take (nat n) xs else take (length xs - nat (- n)) xs)"

definition slice_from :: "int \<Rightarrow> 'a list \<Rightarrow> 'a list" where
  "slice_from n xs = (if 0 \<le> n then drop (nat n) xs else drop (length xs - nat (- n)) xs)"

subsection \<open>Delivery\<close>

text \<open>One call of the delivery activity and the test on its result (lines 120 to 126 and 132
  to 138): the counter moves only when the result is there and reports success.\<close>

definition accepted :: "send_result option \<Rightarrow> bool" where
  "accepted send_result = (case send_result of None \<Rightarrow> False | Some r \<Rightarrow> success r)"

definition send_batch :: "'r sink \<Rightarrow> 'r list \<Rightarrow> 'r orch_state \<Rightarrow> 'r orch_state" where
  "send_batch sink batch_to_send s =
     (let send_result = sink (length (delivered s)) batch_to_send;
          s = s\<lparr>delivered := delivered s @ [(batch_to_send, send_result)]\<rparr>
      in if accepted send_result
         then s\<lparr>total_batches_sent := total_batches_sent s + 1\<rparr>
         else s)"

text \<open>The loop \<^verbatim>\<open>while len(current_batch) >= batch_size\<close>. It does not end when
  \<open>batch_size \<le> 0\<close>, so it is a partial function.\<close>

partial_function (option) drain_full_batches ::
  "'r sink \<Rightarrow> int \<Rightarrow> 'r orch_state \<Rightarrow> 'r orch_state option" where
  "drain_full_batches sink bs s =
     (if bs \<le> int (length (current_batch s)) then
        drain_full_batches sink bs
          (send_batch sink (slice_to bs (current_batch s))
             (s\<lparr>current_batch := slice_from bs (current_batch s)\<rparr>))
      else Some s)"

subsection \<open>A wave\<close>

text \<open>The inner loop of lines 57 to 62: directories are popped from the front of the queue
  until it is empty or the wave holds \<open>k\<close> of them; a popped directory that is already
  processed is dropped. The result is the wave, the rest of the queue and the processed set.\<close>

fun take_wave ::
  "nat \<Rightarrow> string list \<Rightarrow> string set \<Rightarrow> string list \<Rightarrow> string list \<times> string list \<times> string set"
  where
  "take_wave k [] processed current_wave_dirs = (current_wave_dirs, [], processed)"
| "take_wave k (dir_path # rest) processed current_wave_dirs =
     (if length current_wave_dirs < k then
        (if dir_path \<notin> processed
         then take_wave k rest (insert dir_path processed) (current_wave_dirs @ [dir_path])
         else take_wave k rest processed current_wave_dirs)
      else (current_wave_dirs, dir_path # rest, processed))"

text \<open>The body of \<^verbatim>\<open>for result in scan_results\<close> for one non-empty result: lines 102 to
  113 take the result into the state, lines 115 to 128 drain the batch.\<close>

definition absorb_result :: "'r scan_result \<Rightarrow> 'r orch_state \<Rightarrow> 'r orch_state" where
  "absorb_result result s =
     (let s = s\<lparr>directories_to_process := directories_to_process s
                  @ filter (\<lambda>subdir. subdir \<notin> processed_directories s) (subdirectories result)\<rparr>;
          s = s\<lparr>current_batch := current_batch s @ file_records result\<rparr>;
          s = s\<lparr>total_files_processed := total_files_processed s + files_processed result\<rparr>;
          s = s\<lparr>total_bytes_processed := total_bytes_processed s + bytes_processed result\<rparr>;
          s = s\<lparr>all_errors := all_errors s @ errors result\<rparr>
      in s)"

definition fold_result ::
  "'r sink \<Rightarrow> int \<Rightarrow> 'r scan_result \<Rightarrow> 'r orch_state \<Rightarrow> 'r orch_state option" where
  "fold_result sink bs result s = drain_full_batches sink bs (absorb_result result s)"

fun process_results ::
  "'r sink \<Rightarrow> int \<Rightarrow> 'r scan_result option list \<Rightarrow> 'r orch_state \<Rightarrow> 'r orch_state option"
  where
  "process_results sink bs [] s = Some s"
| "process_results sink bs (None # rest) s = process_results sink bs rest s"
| "process_results sink bs (Some result # rest) s =
     (case fold_result sink bs result s of
        None \<Rightarrow> None
      | Some s' \<Rightarrow> process_results sink bs rest s')"

text \<open>One turn of the outer loop (lines 54 to 128), entered with a non-empty queue. An empty
  wave takes the \<^verbatim>\<open>continue\<close>.\<close>

definition wave_step :: "'r scan \<Rightarrow> 'r sink \<Rightarrow> int \<Rightarrow> 'r orch_state \<Rightarrow> 'r orch_state option"
  where
  "wave_step scan sink bs s =
     (let s = s\<lparr>wave_number := wave_number s + 1\<rparr>;
          (current_wave_dirs, rest, processed) =
             take_wave max_parallel_dirs (directories_to_process s) (processed_directories s) [];
          s = s\<lparr>directories_to_process := rest, processed_directories := processed\<rparr>
      in if current_wave_dirs = [] then Some s
         else process_results sink bs (map scan current_wave_dirs)
                (s\<lparr>scanned := scanned s @ current_wave_dirs\<rparr>))"

partial_function (option) wave_loop ::
  "'r scan \<Rightarrow> 'r sink \<Rightarrow> int \<Rightarrow> 'r orch_state \<Rightarrow> 'r orch_state option" where
  "wave_loop scan sink bs s =
     (if directories_to_process s = [] then Some s
      else case wave_step scan sink bs s of
             None \<Rightarrow> None
           | Some s' \<Rightarrow> wave_loop scan sink bs s')"

text \<open>The states the outer loop can be in at its test.\<close>

inductive reachable :: "'r scan \<Rightarrow> 'r sink \<Rightarrow> int \<Rightarrow> 'r orch_state \<Rightarrow> bool"
  for scan :: "'r scan" and sink :: "'r sink" and bs :: int where
  reachable_initial: "reachable scan sink bs initial_state"
| reachable_step: "reachable scan sink bs s \<Longrightarrow> directories_to_process s \<noteq> []
     \<Longrightarrow> wave_step scan sink bs s = Some s' \<Longrightarrow> reachable scan sink bs s'"

subsection \<open>The result\<close>

text \<open>The result dictionary without the floating-point field \<^verbatim>\<open>gb_processed\<close>.\<close>

record share_result =
  file_share :: string
  status :: string
  share_files_processed :: int
  share_bytes_processed :: int
  directories_processed :: nat
  batches_sent :: nat
  waves_completed :: nat
  share_errors :: "string list"
  error_count :: nat
  completed_at :: string

text \<open>Lines 130 to 140: the rest of the batch is sent when it is not empty.\<close>

definition flush_remainder :: "'r sink \<Rightarrow> 'r orch_state \<Rightarrow> 'r orch_state" where
  "flush_remainder sink s =
     (if current_batch s \<noteq> [] then send_batch sink (current_batch s) s else s)"

definition build_result :: "string \<Rightarrow> share_input \<Rightarrow> 'r orch_state \<Rightarrow> share_result" where
  "build_result utcnow input_data s =
     \<lparr> file_share = file_share_name input_data,
       status = ''completed'',
       share_files_processed = total_files_processed s,
       share_bytes_processed = total_bytes_processed s,
       directories_processed = card (processed_directories s),
       batches_sent = total_batches_sent s,
       waves_completed = wave_number s,
       share_errors = take 100 (all_errors s),
       error_count = length (all_errors s),
       completed_at = utcnow \<rparr>"

text \<open>
  \<^verbatim>\<open>orchestrator_file_share\<close>. \<open>utcnow\<close> is what \<^verbatim>\<open>datetime.utcnow().isoformat()\<close> returns
  at line 153. The value is the result together with the final state, which holds the logs;
  \<open>None\<close> when the function does not return.
\<close>

definition orchestrator_file_share ::
  "string \<Rightarrow> 'r scan \<Rightarrow> 'r sink \<Rightarrow> share_input \<Rightarrow> (share_result \<times> 'r orch_state) option" where
  "orchestrator_file_share utcnow scan sink input_data =
     (case wave_loop scan sink (batch_size input_data) initial_state of
        None \<Rightarrow> None
      | Some s \<Rightarrow>
          (let s = flush_remainder sink s in Some (build_result utcnow input_data s, s)))"

section \<open>The main orchestrator (\<^verbatim>\<open>orchestrator_main\<close>)\<close>

record main_input = base_config +
  file_share_names :: "string list"

text \<open>The report, without the floating-point field \<^verbatim>\<open>total_gb_processed\<close>.\<close>

record main_report =
  report_status :: string
  report_execution_id :: string
  report_storage_account :: string
  total_shares_scanned :: nat
  report_total_files_processed :: int
  report_total_bytes_processed :: int
  report_total_batches_sent :: nat
  total_errors :: nat
  share_results :: "share_result list"
  report_completed_at :: string

text \<open>The two shapes of the value returned: nothing to scan (with the execution id), or the
  report.\<close>

datatype main_result = No_file_shares_found string | Completed main_report

text \<open>The values handed to \<^verbatim>\<open>set_custom_status\<close>, in the order of the calls.\<close>

datatype custom_status =
    Initializing string string
  | Discovering_file_shares
  | Scanning_file_shares nat "string list"
  | Aggregating_results
  | Status_completed main_report

text \<open>Line 82 to 91: the input of the sub-orchestrator of one share.\<close>

definition share_input_of :: "main_input \<Rightarrow> string \<Rightarrow> share_input" where
  "share_input_of input_data share_name =
     \<lparr> execution_id = execution_id input_data,
       storage_account_name = storage_account_name input_data,
       storage_account_key = storage_account_key input_data,
       skip_hash_computation = skip_hash_computation input_data,
       batch_size = batch_size input_data,
       max_file_size_for_hash_mb = max_file_size_for_hash_mb input_data,
       exclude_patterns = exclude_patterns input_data,
       file_share_name = share_name \<rparr>"

text \<open>Lines 102 to 119.\<close>

definition aggregate :: "string \<Rightarrow> main_input \<Rightarrow> string list \<Rightarrow> share_result list \<Rightarrow> main_report"
  where
  "aggregate utcnow input_data names results =
     \<lparr> report_status = ''completed'',
       report_execution_id = execution_id input_data,
       report_storage_account = storage_account_name input_data,
       total_shares_scanned = length names,
       report_total_files_processed = sum_list (map share_files_processed results),
       report_total_bytes_processed = sum_list (map share_bytes_processed results),
       report_total_batches_sent = sum_list (map batches_sent results),
       total_errors = sum_list (map (\<lambda>r. length (share_errors r)) results),
       share_results = results,
       report_completed_at = utcnow \<rparr>"

text \<open>
  \<^verbatim>\<open>orchestrator_main\<close>. \<open>utcnow_start\<close> and \<open>utcnow_end\<close> are what
  \<^verbatim>\<open>datetime.utcnow().isoformat()\<close> returns at lines 43 and 118, \<open>share_utcnow n\<close> what it
  returns in the sub-orchestrator of the share \<open>n\<close>. \<open>list_shares\<close> is the result of
  \<^verbatim>\<open>activity_list_file_shares\<close>, \<open>Inl\<close> when the activity raises, which ends the
  orchestration with that error. \<open>scan n\<close> and \<open>sink n\<close> are the recorded activity results of
  the sub-orchestrator of the share \<open>n\<close>. The value is \<open>None\<close> when a sub-orchestrator does
  not return.
\<close>

definition orchestrator_main ::
  "string \<Rightarrow> string \<Rightarrow> (string \<Rightarrow> string) \<Rightarrow> string + string list \<Rightarrow> (string \<Rightarrow> 'r scan)
     \<Rightarrow> (string \<Rightarrow> 'r sink) \<Rightarrow> main_input
     \<Rightarrow> (string + main_result \<times> custom_status list) option" where
  "orchestrator_main utcnow_start utcnow_end share_utcnow list_shares scan sink input_data =
     (let statuses = [Initializing (storage_account_name input_data) utcnow_start];
          discover = (file_share_names input_data = []);
          statuses = (if discover then statuses @ [Discovering_file_shares] else statuses)
      in case (if discover then list_shares else Inr (file_share_names input_data)) of
           Inl err \<Rightarrow> Some (Inl err)
         | Inr names \<Rightarrow>
             if names = [] then
               Some (Inr (No_file_shares_found (execution_id input_data), statuses))
             else
               (case those (map (\<lambda>share_name.
                        map_option fst
                          (orchestrator_file_share (share_utcnow share_name) (scan share_name)
                             (sink share_name) (share_input_of input_data share_name)))
                      names) of
                  None \<Rightarrow> None
                | Some results \<Rightarrow>
                    (let report = aggregate utcnow_end input_data names results
                     in Some (Inr (Completed report,
                          statuses @ [Scanning_file_shares (length names) names,
                                      Aggregating_results, Status_completed report])))))"

section \<open>Views of a run\<close>

text \<open>What a scan result holds: its records, its error strings and the subdirectories it
  reports (nothing for an empty result).\<close>

definition result_records :: "'r scan_result option \<Rightarrow> 'r list" where
  "result_records r = (case r of None \<Rightarrow> [] | Some result \<Rightarrow> file_records result)"

definition result_errors :: "'r scan_result option \<Rightarrow> string list" where
  "result_errors r = (case r of None \<Rightarrow> [] | Some result \<Rightarrow> errors result)"

definition result_subdirs :: "'r scan_result option \<Rightarrow> string list" where
  "result_subdirs r = (case r of None \<Rightarrow> [] | Some result \<Rightarrow> subdirectories result)"

text \<open>The traversal part of the state and the counters fed by scan results.\<close>

definition same_traversal :: "'r orch_state \<Rightarrow> 'r orch_state \<Rightarrow> bool" where
  "same_traversal s s' \<longleftrightarrow>
     directories_to_process s' = directories_to_process s
     \<and> processed_directories s' = processed_directories s
     \<and> wave_number s' = wave_number s
     \<and> scanned s' = scanned s
     \<and> total_files_processed s' = total_files_processed s
     \<and> total_bytes_processed s' = total_bytes_processed s
     \<and> all_errors s' = all_errors s"

text \<open>The records the orchestrator has received so far: those handed to the delivery activity
  followed by those still in the batch.\<close>

definition received :: "'r orch_state \<Rightarrow> 'r list" where
  "received s = concat (map fst (delivered s)) @ current_batch s"

text \<open>The delivery log agrees with the sink and with the counter: the \<open>k\<close>-th entry holds the
  result of the \<open>k\<close>-th call, and the counter is the number of accepted entries.\<close>

definition log_ok :: "'r sink \<Rightarrow> 'r orch_state \<Rightarrow> bool" where
  "log_ok sink s \<longleftrightarrow>
     map snd (delivered s) = map (\<lambda>(k, b). sink k b) (enumerate 0 (map fst (delivered s)))
     \<and> total_batches_sent s = length (filter (\<lambda>entry. accepted (snd entry)) (delivered s))"

text \<open>One turn of the loop \<^verbatim>\<open>while len(current_batch) >= batch_size\<close>.\<close>

definition drain_turn :: "'r sink \<Rightarrow> int \<Rightarrow> 'r orch_state \<Rightarrow> 'r orch_state" where
  "drain_turn sink bs s =
     send_batch sink (slice_to bs (current_batch s))
       (s\<lparr>current_batch := slice_from bs (current_batch s)\<rparr>)"

text \<open>What a drain leaves behind, relative to the state it started from.\<close>

definition drained :: "'r sink \<Rightarrow> int \<Rightarrow> 'r orch_state \<Rightarrow> 'r orch_state \<Rightarrow> bool" where
  "drained sink bs s s' \<longleftrightarrow>
     same_traversal s s' \<and> received s' = received s \<and> (log_ok sink s \<longrightarrow> log_ok sink s')
     \<and> (\<exists>new. delivered s' = delivered s @ new
           \<and> (0 < bs \<longrightarrow> (\<forall>b \<in> set new. length (fst b) = nat bs)))
     \<and> (0 < bs \<longrightarrow> length (current_batch s') < nat bs)"

text \<open>What folding a list of results leaves behind.\<close>

definition folded ::
  "'r sink \<Rightarrow> int \<Rightarrow> 'r scan_result option list \<Rightarrow> 'r orch_state \<Rightarrow> 'r orch_state \<Rightarrow> bool" where
  "folded sink bs rs s s' \<longleftrightarrow>
     directories_to_process s' = directories_to_process s
        @ concat (map (\<lambda>r. filter (\<lambda>d. d \<notin> processed_directories s) (result_subdirs r)) rs)
     \<and> processed_directories s' = processed_directories s
     \<and> wave_number s' = wave_number s
     \<and> scanned s' = scanned s
     \<and> all_errors s' = all_errors s @ concat (map result_errors rs)
     \<and> received s' = received s @ concat (map result_records rs)
     \<and> (log_ok sink s \<longrightarrow> log_ok sink s')
     \<and> (\<exists>new. delivered s' = delivered s @ new
           \<and> (0 < bs \<longrightarrow> (\<forall>b \<in> set new. length (fst b) = nat bs)))
     \<and> (0 < bs \<longrightarrow> length (current_batch s) < nat bs \<longrightarrow> length (current_batch s') < nat bs)"

text \<open>The invariant of the outer loop: the scanned directories are the processed ones, each
  scanned once; the records and error strings received are those of the scanned directories,
  in the order of the scans; the delivery log agrees with the sink; and, for a positive batch
  size, every batch delivered is full and the pending batch is not.\<close>

definition wave_inv :: "'r scan \<Rightarrow> 'r sink \<Rightarrow> int \<Rightarrow> 'r orch_state \<Rightarrow> bool" where
  "wave_inv scan sink bs s \<longleftrightarrow>
     distinct (scanned s)
     \<and> set (scanned s) = processed_directories s
     \<and> received s = concat (map (\<lambda>d. result_records (scan d)) (scanned s))
     \<and> all_errors s = concat (map (\<lambda>d. result_errors (scan d)) (scanned s))
     \<and> log_ok sink s
     \<and> (0 < bs \<longrightarrow> (\<forall>b \<in> set (delivered s). length (fst b) = nat bs)
           \<and> length (current_batch s) < nat bs)"

text \<open>The number of records in the results of the directories scanned so far.\<close>

definition total_records :: "'r scan \<Rightarrow> 'r orch_state \<Rightarrow> nat" where
  "total_records scan s = length (concat (map (\<lambda>d. result_records (scan d)) (scanned s)))"

text \<open>The outer loop run for at most \<open>n\<close> turns.\<close>

fun run_waves ::
  "nat \<Rightarrow> 'r scan \<Rightarrow> 'r sink \<Rightarrow> int \<Rightarrow> 'r orch_state \<Rightarrow> 'r orch_state option" where
  "run_waves 0 scan sink bs s = Some s"
| "run_waves (Suc n) scan sink bs s =
     (if directories_to_process s = [] then Some s
      else case wave_step scan sink bs s of
             None \<Rightarrow> None
           | Some s' \<Rightarrow> run_waves n scan sink bs s')"

text \<open>A result and a report with the clock readings blanked.\<close>

definition without_clock :: "share_result \<Rightarrow> share_result" where
  "without_clock r = r\<lparr>completed_at := ''''\<rparr>"

definition report_without_clock :: "main_report \<Rightarrow> main_report" where
  "report_without_clock r =
     r\<lparr>report_completed_at := '''', share_results := map without_clock (share_results r)\<rparr>"

definition result_without_clock :: "main_result \<Rightarrow> main_result" where
  "result_without_clock r =
     (case r of
        No_file_shares_found e \<Rightarrow> No_file_shares_found e
      | Completed report \<Rightarrow> Completed (report_without_clock report))"

definition status_without_clock :: "custom_status \<Rightarrow> custom_status" where
  "status_without_clock st =
     (case st of
        Initializing a t \<Rightarrow> Initializing a ''''
      | Status_completed report \<Rightarrow> Status_completed (report_without_clock report)
      | _ \<Rightarrow> st)"

definition run_without_clock ::
  "(string + main_result \<times> custom_status list) option
     \<Rightarrow> (string + main_result \<times> custom_status list) option" where
  "run_without_clock run =
     map_option (map_sum id (\<lambda>(r, log). (result_without_clock r, map status_without_clock log)))
       run"

section \<open>Directory trees\<close>

text \<open>
  A finite directory tree: a directory with its path and its subdirectories. A value of this
  type is finite and has no cycle. \<open>paths\<close> lists the directories, \<open>nodes\<close> each directory
  with the paths of its subdirectories, \<open>level k\<close> the directories \<open>k\<close> steps below the root.
  The depth counts levels (a root without subdirectories has depth 1), the width is the size of
  the largest level.
\<close>

datatype dir_tree = Dir string "dir_tree list"

fun root_path :: "dir_tree \<Rightarrow> string" where
  "root_path (Dir p ts) = p"

fun paths :: "dir_tree \<Rightarrow> string list" where
  "paths (Dir p ts) = p # concat (map paths ts)"

fun nodes :: "dir_tree \<Rightarrow> (string \<times> string list) list" where
  "nodes (Dir p ts) = (p, map root_path ts) # concat (map nodes ts)"

fun level :: "nat \<Rightarrow> dir_tree \<Rightarrow> string list" where
  "level 0 (Dir p ts) = [p]"
| "level (Suc k) (Dir p ts) = concat (map (level k) ts)"

fun depth :: "dir_tree \<Rightarrow> nat" where
  "depth (Dir p ts) = Suc (fold max (map depth ts) 0)"

definition width :: "dir_tree \<Rightarrow> nat" where
  "width t = fold max (map (\<lambda>k. length (level k t)) [0 ..< depth t]) 0"

text \<open>The storage collaborator presents the tree \<open>t\<close> through the scan results: the result
  for each directory of \<open>t\<close> reports exactly the subdirectories it has in \<open>t\<close>.\<close>

definition presents :: "'r scan \<Rightarrow> dir_tree \<Rightarrow> bool" where
  "presents scan t \<longleftrightarrow> list_all (\<lambda>(p, ks). result_subdirs (scan p) = ks) (nodes t)"

text \<open>The invariant of the traversal of \<open>t\<close>: the queue discipline of a breadth-first search.\<close>

definition bfs_inv :: "'r scan \<Rightarrow> dir_tree \<Rightarrow> 'r orch_state \<Rightarrow> bool" where
  "bfs_inv scan t s \<longleftrightarrow>
     distinct (scanned s) \<and> set (scanned s) \<subseteq> set (paths t)
     \<and> processed_directories s = set (scanned s)
     \<and> scanned s @ directories_to_process s
          = '''' # concat (map (\<lambda>d. result_subdirs (scan d)) (scanned s))"

section \<open>What a run depends on\<close>

text \<open>Two states that differ at most in what the sink answered: the results logged for the
  deliveries and the counter of accepted deliveries.\<close>

definition same_but_sink :: "'r orch_state \<Rightarrow> 'r orch_state \<Rightarrow> bool" where
  "same_but_sink s s' \<longleftrightarrow>
     directories_to_process s' = directories_to_process s
     \<and> processed_directories s' = processed_directories s
     \<and> current_batch s' = current_batch s
     \<and> total_files_processed s' = total_files_processed s
     \<and> total_bytes_processed s' = total_bytes_processed s
     \<and> all_errors s' = all_errors s
     \<and> wave_number s' = wave_number s
     \<and> scanned s' = scanned s
     \<and> map fst (delivered s') = map fst (delivered s)"

text \<open>A result, a report and the value of a run with the counters of accepted deliveries
  blanked.\<close>

definition without_batches :: "share_result \<Rightarrow> share_result" where
  "without_batches r = r\<lparr>batches_sent := 0\<rparr>"

definition report_without_batches :: "main_report \<Rightarrow> main_report" where
  "report_without_batches r =
     r\<lparr>report_total_batches_sent := 0, share_results := map without_batches (share_results r)\<rparr>"

definition result_without_batches :: "main_result \<Rightarrow> main_result" where
  "result_without_batches r =
     (case r of
        No_file_shares_found e \<Rightarrow> No_file_shares_found e
      | Completed report \<Rightarrow> Completed (report_without_batches report))"

definition status_without_batches :: "custom_status \<Rightarrow> custom_status" where
  "status_without_batches st =
     (case st of
        Status_completed report \<Rightarrow> Status_completed (report_without_batches report)
      | _ \<Rightarrow> st)"

definition run_without_batches ::
  "(string + main_result \<times> custom_status list) option
     \<Rightarrow> (string + main_result \<times> custom_status list) option" where
  "run_without_batches run =
     map_option
       (map_sum id (\<lambda>(r, log). (result_without_batches r, map status_without_batches log))) run"

text \<open>
  The history of a run in the state \<open>s\<close>: the scan results of the directories in
  \<open>scanned s\<close> and the delivery results logged in \<open>delivered s\<close>. A sink replays a delivery
  log when it answers the \<open>k\<close>-th logged call with the logged result. Another pair of recorded
  results agrees with the history when it holds the same scan result for each scanned
  directory and its sink replays the log.
\<close>

definition replays :: "'r sink \<Rightarrow> ('r list \<times> send_result option) list \<Rightarrow> bool" where
  "replays sink' log \<longleftrightarrow>
     map (\<lambda>(k, b). sink' k b) (enumerate 0 (map fst log)) = map snd log"

definition agrees_with_history ::
  "'r scan \<Rightarrow> 'r sink \<Rightarrow> 'r scan \<Rightarrow> 'r orch_state \<Rightarrow> bool" where
  "agrees_with_history scan' sink' scan s \<longleftrightarrow>
     map scan' (scanned s) = map scan (scanned s) \<and> replays sink' (delivered s)"

section \<open>Example data\<close>

text \<open>
  A small share for the closed instances below. The library functions of the environment are
  stand-ins: the format string for the formatted time, a fixed digest, the part from the last
  dot on as extension, equality as pattern match.
\<close>

definition env0 :: "string env" where
  "env0 = \<lparr> now = 1700000000000000,
            strftime = (\<lambda>fmt t. fmt),
            md5_hexdigest = (\<lambda>content. ''5d41402abc4b2a76b9719d911017c592''),
            splitext = (\<lambda>n. (takeWhile (\<lambda>c. c \<noteq> CHR ''.'') n, dropWhile (\<lambda>c. c \<noteq> CHR ''.'') n)),
            fnmatch = (\<lambda>name pattern. name = pattern) \<rparr>"

definition task0 :: task_input where
  "task0 = \<lparr> execution_id = ''run-1'',
             storage_account_name = ''acct'',
             storage_account_key = ''key'',
             skip_hash_computation = False,
             batch_size = 2,
             max_file_size_for_hash_mb = 100,
             exclude_patterns = [''b.tmp''],
             file_share_name = ''share'',
             directory_path = '''' \<rparr>"



definition unreadable_file :: "string item" where
  "unreadable_file = \<lparr> item_name = ''d.db'', is_directory = False, item_size = 4096,
                       file_properties = Inr \<lparr> last_modified = None, creation_time = None \<rparr>,
                       download_file = Inl ''ShareSnapshotInProgress'' \<rparr>"


text \<open>
  Recorded results for a share whose root holds three records and one subdirectory \<open>sub\<close>
  with two records; records are numbers here. One sink accepts every batch, one rejects every
  batch.
\<close>

definition scan0 :: "nat scan" where
  "scan0 d =
     (if d = '''' then
        Some \<lparr> result_directory_path = '''', files_processed = 3, bytes_processed = 30,
               subdirectories = [''sub''], file_records = [1, 2, 3], errors = [] \<rparr>
      else if d = ''sub'' then
        Some \<lparr> result_directory_path = ''sub'', files_processed = 2, bytes_processed = 20,
               subdirectories = [], file_records = [4, 5], errors = [] \<rparr>
      else None)"

definition sink_accept :: "nat sink" where
  "sink_accept k b = Some \<lparr> success = True, records_sent = int (length b), message = ''ok'' \<rparr>"

definition sink_reject :: "nat sink" where
  "sink_reject k b = Some \<lparr> success = False, records_sent = 0, message = ''HTTP error'' \<rparr>"

definition share0 :: share_input where
  "share0 = \<lparr> execution_id = ''run-1'',
              storage_account_name = ''acct'',
              storage_account_key = ''key'',
              skip_hash_computation = True,
              batch_size = 2,
              max_file_size_for_hash_mb = 100,
              exclude_patterns = [],
              file_share_name = ''share'' \<rparr>"

text \<open>
  Recorded results in which the directories \<open>x\<close> and \<open>y\<close> of the root both report the path
  \<open>z\<close>, and \<open>x\<close> reports nine more.
\<close>

definition empty_result :: "string \<Rightarrow> nat scan_result" where
  "empty_result d =
     \<lparr> result_directory_path = d, files_processed = 0, bytes_processed = 0,
       subdirectories = [], file_records = [], errors = [] \<rparr>"


definition main0 :: main_input where
  "main0 = \<lparr> execution_id = ''run-1'',
             storage_account_name = ''acct'',
             storage_account_key = ''key'',
             skip_hash_computation = True,
             batch_size = 2,
             max_file_size_for_hash_mb = 100,
             exclude_patterns = [],
             file_share_names = [''share''] \<rparr>"

text \<open>Recorded results for a share whose root holds one record and one file that could not be
  read.\<close>

definition scan_err :: "nat scan" where
  "scan_err d =
     (if d = '''' then
        Some \<lparr> result_directory_path = '''', files_processed = 1, bytes_processed = 10,
               subdirectories = [], file_records = [7],
               errors = [''Error processing file q.bin: denied''] \<rparr>
      else None)"

text \<open>The tree that \<open>scan0\<close> presents: the root and its subdirectory \<open>sub\<close>.\<close>

definition tree0 :: dir_tree where
  "tree0 = Dir '''' [Dir ''sub'' []]"

text \<open>Recorded results that agree with \<open>scan0\<close> and \<open>sink_accept\<close> on the history of the
  run over \<open>tree0\<close> (two scans, three deliveries) and differ elsewhere.\<close>

definition scan0_later :: "nat scan" where
  "scan0_later d = (if d = ''other'' then Some (empty_result d) else scan0 d)"

definition sink_later :: "nat sink" where
  "sink_later k b = (if k < 3 then sink_accept k b else sink_reject k b)"

section \<open>Properties of the leaf helpers\<close>

lemma lower_char_idem: "lower_char (lower_char c) = lower_char c"
  unfolding lower_char_def Let_def by (auto simp: of_char_of)

lemma lower_idem: "lower (lower s) = lower s"
  by (simp add: lower_def lower_char_idem)

lemma scan_get_file_category_eq: "scan_get_file_category e = get_file_category e"
  unfolding get_file_category_def scan_get_file_category_def document_exts_def image_exts_def
    video_exts_def audio_exts_def archive_exts_def code_exts_def executable_exts_def
    database_exts_def log_exts_def temp_exts_def
  by (rule refl)

lemma get_file_category_first_match:
  "get_file_category e = first_match category_tables (lower e)"
  by (simp add: get_file_category_def category_tables_def Let_def)

lemma filter_single_ex1:
  assumes "filter P xs = [x]"
  shows "(\<exists>!b. b \<in> set xs \<and> P b) \<and> (\<forall>b \<in> set xs. P b \<longrightarrow> b = x)"
proof -
  have "(b \<in> set xs \<and> P b) = (b \<in> set (filter P xs))" for b by simp
  then have "(b \<in> set xs \<and> P b) = (b = x)" for b unfolding assms by simp
  then show ?thesis by auto
qed

lemma size_filter:
  assumes "0 \<le> s"
  shows "\<exists>lo hi. filter (in_size_bucket s) size_buckets = [(lo, hi, get_size_bucket s)]"
proof -
  consider "s < 1024" | "1024 \<le> s" "s < 1048576" | "1048576 \<le> s" "s < 10485760"
    | "10485760 \<le> s" "s < 104857600" | "104857600 \<le> s" "s < 524288000"
    | "524288000 \<le> s" "s < 1073741824" | "1073741824 \<le> s" "s < 5368709120"
    | "5368709120 \<le> s" "s < 10737418240" | "10737418240 \<le> s"
    by linarith
  then show ?thesis
    using assms by cases (simp_all add: size_buckets_def get_size_bucket_def KB_def MB_def GB_def)
qed

lemma age_filter:
  "\<exists>lo hi. filter (in_age_bucket a) age_buckets = [(lo, hi, get_age_bucket a)]"
proof -
  consider "a \<le> 7" | "7 < a" "a \<le> 30" | "30 < a" "a \<le> 90" | "90 < a" "a \<le> 180"
    | "180 < a" "a \<le> 365" | "365 < a" "a \<le> 730" | "730 < a" "a \<le> 1825" | "1825 < a"
    by linarith
  then show ?thesis
    by cases (simp_all add: age_buckets_def get_age_bucket_def)
qed

section \<open>Properties of the scan activity\<close>






section \<open>Properties of the sub-orchestrator\<close>

lemma slice_append: "slice_to n xs @ slice_from n xs = xs"
  by (simp add: slice_to_def slice_from_def)

lemma slice_to_length: "0 < n \<Longrightarrow> n \<le> int (length xs) \<Longrightarrow> length (slice_to n xs) = nat n"
  by (simp add: slice_to_def)

lemma slice_from_length: "0 < n \<Longrightarrow> n \<le> int (length xs) \<Longrightarrow> length (slice_from n xs) < length xs"
  by (simp add: slice_from_def)

lemma send_batch_fields:
  "directories_to_process (send_batch sink b s) = directories_to_process s"
  "processed_directories (send_batch sink b s) = processed_directories s"
  "wave_number (send_batch sink b s) = wave_number s"
  "scanned (send_batch sink b s) = scanned s"
  "total_files_processed (send_batch sink b s) = total_files_processed s"
  "total_bytes_processed (send_batch sink b s) = total_bytes_processed s"
  "all_errors (send_batch sink b s) = all_errors s"
  "current_batch (send_batch sink b s) = current_batch s"
  "delivered (send_batch sink b s) = delivered s @ [(b, sink (length (delivered s)) b)]"
  "total_batches_sent (send_batch sink b s)
     = total_batches_sent s + (if accepted (sink (length (delivered s)) b) then 1 else 0)"
  by (simp_all add: send_batch_def Let_def)

lemma same_traversal_refl: "same_traversal s s"
  by (simp add: same_traversal_def)

lemma same_traversal_trans: "same_traversal s s' \<Longrightarrow> same_traversal s' s'' \<Longrightarrow> same_traversal s s''"
  by (simp add: same_traversal_def)

lemma log_ok_send_batch:
  assumes "log_ok sink s"
  shows "log_ok sink (send_batch sink b s)"
proof -
  from assms have a: "map snd (delivered s)
      = map (\<lambda>(k, b). sink k b) (enumerate 0 (map fst (delivered s)))"
    and c: "total_batches_sent s = length (filter (\<lambda>entry. accepted (snd entry)) (delivered s))"
    by (simp_all add: log_ok_def)
  have "map snd (delivered (send_batch sink b s))
      = map snd (delivered s) @ [sink (length (delivered s)) b]"
    by (simp add: send_batch_fields)
  also have "\<dots> = map (\<lambda>(k, b). sink k b) (enumerate 0 (map fst (delivered s)))
      @ [sink (length (delivered s)) b]"
    by (simp only: a [symmetric])
  also have "\<dots> = map (\<lambda>(k, b). sink k b)
      (enumerate 0 (map fst (delivered (send_batch sink b s))))"
    by (simp add: send_batch_fields enumerate_append_eq)
  finally have a': "map snd (delivered (send_batch sink b s)) = map (\<lambda>(k, b). sink k b)
      (enumerate 0 (map fst (delivered (send_batch sink b s))))" .
  have c': "total_batches_sent (send_batch sink b s)
      = length (filter (\<lambda>entry. accepted (snd entry)) (delivered (send_batch sink b s)))"
    by (simp add: send_batch_fields c)
  from a' c' show ?thesis
    unfolding log_ok_def by (rule conjI)
qed

lemma drain_turn_props:
  "same_traversal s (drain_turn sink bs s)"
  "received (drain_turn sink bs s) = received s"
  "delivered (drain_turn sink bs s) = delivered s @ [(slice_to bs (current_batch s),
      sink (length (delivered s)) (slice_to bs (current_batch s)))]"
  "current_batch (drain_turn sink bs s) = slice_from bs (current_batch s)"
  by (simp_all add: drain_turn_def same_traversal_def send_batch_fields received_def slice_append)

lemma log_ok_drain_turn: "log_ok sink s \<Longrightarrow> log_ok sink (drain_turn sink bs s)"
proof -
  assume a: "log_ok sink s"
  have "log_ok sink (s\<lparr>current_batch := slice_from bs (current_batch s)\<rparr>)"
    using a by (simp add: log_ok_def)
  from log_ok_send_batch [OF this] show ?thesis
    by (simp add: drain_turn_def)
qed

lemma drained_refl: "(0 < bs \<longrightarrow> length (current_batch s) < nat bs) \<Longrightarrow> drained sink bs s s"
  by (simp add: drained_def same_traversal_refl)

lemma drained_turn:
  assumes "bs \<le> int (length (current_batch s))" and "drained sink bs (drain_turn sink bs s) s'"
  shows "drained sink bs s s'"
proof -
  from assms(2) obtain new where n: "delivered s' = delivered (drain_turn sink bs s) @ new"
      "0 < bs \<longrightarrow> (\<forall>b \<in> set new. length (fst b) = nat bs)"
    unfolding drained_def by blast
  let ?b = "(slice_to bs (current_batch s), sink (length (delivered s)) (slice_to bs (current_batch s)))"
  have "delivered s' = delivered s @ (?b # new)"
    using n(1) by (simp add: drain_turn_props)
  moreover have "0 < bs \<longrightarrow> (\<forall>b \<in> set (?b # new). length (fst b) = nat bs)"
    using n(2) assms(1) by (simp add: slice_to_length)
  ultimately have ex: "\<exists>new. delivered s' = delivered s @ new
      \<and> (0 < bs \<longrightarrow> (\<forall>b \<in> set new. length (fst b) = nat bs))"
    by blast
  from assms(2) have "same_traversal s s'"
    unfolding drained_def using same_traversal_trans [OF drain_turn_props(1)] by blast
  moreover from assms(2) have "received s' = received s"
    unfolding drained_def by (simp add: drain_turn_props)
  moreover from assms(2) have "log_ok sink s \<longrightarrow> log_ok sink s'"
    unfolding drained_def using log_ok_drain_turn [of sink s bs] by blast
  moreover from assms(2) have "0 < bs \<longrightarrow> length (current_batch s') < nat bs"
    unfolding drained_def by blast
  ultimately show ?thesis unfolding drained_def using ex by blast
qed

lemma drain_rel:
  assumes "drain_full_batches sink bs s = Some s'"
  shows "drained sink bs s s'"
proof (rule drain_full_batches.raw_induct [where P = drained, OF _ assms])
  fix drain :: "'a sink \<Rightarrow> int \<Rightarrow> 'a orch_state \<Rightarrow> 'a orch_state option"
    and sink bs s s'
  assume ih: "\<And>sink bs s s'. drain sink bs s = Some s' \<Longrightarrow> drained sink bs s s'"
    and eq: "(if bs \<le> int (length (current_batch s))
        then drain sink bs (send_batch sink (slice_to bs (current_batch s))
                (s\<lparr>current_batch := slice_from bs (current_batch s)\<rparr>))
        else Some s) = Some s'"
  show "drained sink bs s s'"
  proof (cases "bs \<le> int (length (current_batch s))")
    case False
    with eq have "s' = s" by simp
    with False show ?thesis
      by (simp add: drained_refl)
  next
    case True
    with eq have "drain sink bs (drain_turn sink bs s) = Some s'"
      by (simp add: drain_turn_def)
    from drained_turn [OF True ih [OF this]] show ?thesis .
  qed
qed

lemma drain_total:
  assumes "0 < bs"
  shows "\<exists>s'. drain_full_batches sink bs s = Some s'"
proof (induction "length (current_batch s)" arbitrary: s rule: less_induct)
  case less
  show ?case
  proof (cases "bs \<le> int (length (current_batch s))")
    case False
    then show ?thesis by (subst drain_full_batches.simps) simp
  next
    case True
    have "length (current_batch (drain_turn sink bs s)) < length (current_batch s)"
      using True assms by (simp add: drain_turn_props slice_from_length)
    from less [OF this] obtain s' where "drain_full_batches sink bs (drain_turn sink bs s) = Some s'"
      by blast
    with True show ?thesis
      by (subst drain_full_batches.simps) (simp add: drain_turn_def)
  qed
qed

lemma absorb_fields:
  "directories_to_process (absorb_result r s) = directories_to_process s
     @ filter (\<lambda>d. d \<notin> processed_directories s) (subdirectories r)"
  "processed_directories (absorb_result r s) = processed_directories s"
  "wave_number (absorb_result r s) = wave_number s"
  "scanned (absorb_result r s) = scanned s"
  "all_errors (absorb_result r s) = all_errors s @ errors r"
  "current_batch (absorb_result r s) = current_batch s @ file_records r"
  "delivered (absorb_result r s) = delivered s"
  "total_batches_sent (absorb_result r s) = total_batches_sent s"
  "total_files_processed (absorb_result r s) = total_files_processed s + files_processed r"
  "total_bytes_processed (absorb_result r s) = total_bytes_processed s + bytes_processed r"
  by (simp_all add: absorb_result_def Let_def)

lemma folded_Nil: "folded sink bs [] s s"
  by (simp add: folded_def)

lemma folded_None: "folded sink bs rs s s' \<Longrightarrow> folded sink bs (None # rs) s s'"
  by (simp add: folded_def result_subdirs_def result_errors_def result_records_def)

lemma folded_Some:
  assumes d: "drained sink bs (absorb_result r s) s1" and f: "folded sink bs rs s1 s'"
  shows "folded sink bs (Some r # rs) s s'"
proof -
  from d have t: "same_traversal (absorb_result r s) s1"
    and rc: "received s1 = received (absorb_result r s)"
    and lg: "log_ok sink (absorb_result r s) \<longrightarrow> log_ok sink s1"
    and cb: "0 < bs \<longrightarrow> length (current_batch s1) < nat bs"
    by (simp_all add: drained_def)
  from d obtain new1 where n1: "delivered s1 = delivered s @ new1"
    "0 < bs \<longrightarrow> (\<forall>b \<in> set new1. length (fst b) = nat bs)"
    unfolding drained_def by (auto simp: absorb_fields)
  from f obtain new2 where n2: "delivered s' = delivered s1 @ new2"
    "0 < bs \<longrightarrow> (\<forall>b \<in> set new2. length (fst b) = nat bs)"
    unfolding folded_def by blast
  have ex: "\<exists>new. delivered s' = delivered s @ new
      \<and> (0 < bs \<longrightarrow> (\<forall>b \<in> set new. length (fst b) = nat bs))"
    using n1 n2 by (intro exI [of _ "new1 @ new2"]) auto
  have l0: "log_ok sink s \<Longrightarrow> log_ok sink (absorb_result r s)"
    by (simp add: log_ok_def absorb_fields)
  have p: "processed_directories s1 = processed_directories s"
    using t by (simp add: same_traversal_def absorb_fields)
  have r0: "received (absorb_result r s) = received s @ file_records r"
    by (simp add: received_def absorb_fields)
  show ?thesis
    unfolding folded_def
  proof (intro conjI)
    show "directories_to_process s' = directories_to_process s
        @ concat (map (\<lambda>r. filter (\<lambda>d. d \<notin> processed_directories s) (result_subdirs r))
            (Some r # rs))"
      using f t p by (simp add: folded_def same_traversal_def absorb_fields result_subdirs_def)
    show "processed_directories s' = processed_directories s"
      using f p by (simp add: folded_def)
    show "wave_number s' = wave_number s"
      using f t by (simp add: folded_def same_traversal_def absorb_fields)
    show "scanned s' = scanned s"
      using f t by (simp add: folded_def same_traversal_def absorb_fields)
    show "all_errors s' = all_errors s @ concat (map result_errors (Some r # rs))"
      using f t by (simp add: folded_def same_traversal_def absorb_fields result_errors_def)
    show "received s' = received s @ concat (map result_records (Some r # rs))"
      using f rc r0 by (simp add: folded_def result_records_def)
    show "log_ok sink s \<longrightarrow> log_ok sink s'"
      using f lg l0 by (simp add: folded_def)
    show "\<exists>new. delivered s' = delivered s @ new
      \<and> (0 < bs \<longrightarrow> (\<forall>b \<in> set new. length (fst b) = nat bs))"
      by (rule ex)
    show "0 < bs \<longrightarrow> length (current_batch s) < nat bs \<longrightarrow> length (current_batch s') < nat bs"
      using f cb by (simp add: folded_def)
  qed
qed

lemma process_results_rel:
  "process_results sink bs rs s = Some s' \<Longrightarrow> folded sink bs rs s s'"
proof (induction sink bs rs s rule: process_results.induct)
  case (1 sink bs s)
  then show ?case by (simp add: folded_Nil)
next
  case (2 sink bs rest s)
  then show ?case by (simp add: folded_None)
next
  case (3 sink bs result rest s)
  from 3(2) obtain s1 where s1: "fold_result sink bs result s = Some s1"
    and r: "process_results sink bs rest s1 = Some s'"
    by (auto split: option.splits)
  from s1 have "drained sink bs (absorb_result result s) s1"
    by (simp add: fold_result_def drain_rel)
  from folded_Some [OF this 3(1) [OF s1 r]] show ?case .
qed

lemma process_results_total:
  assumes "0 < bs"
  shows "\<exists>s'. process_results sink bs rs s = Some s'"
proof (induction rs arbitrary: s)
  case Nil
  show ?case by simp
next
  case (Cons r rs)
  show ?case
  proof (cases r)
    case None
    with Cons show ?thesis by simp
  next
    case (Some result)
    from drain_total [OF assms] obtain s1 where
      "drain_full_batches sink bs (absorb_result result s) = Some s1" by blast
    with Cons [of s1] Some show ?thesis
      by (simp add: fold_result_def)
  qed
qed

lemma take_wave_props:
  "take_wave k F P W = (W', F', P') \<Longrightarrow>
     \<exists>new n. W' = W @ new \<and> F' = drop n F \<and> P' = P \<union> set new \<and> distinct new
        \<and> set new \<inter> P = {} \<and> set new \<subseteq> set (take n F) \<and> set (take n F) \<subseteq> P'"
proof (induction F arbitrary: P W)
  case Nil
  then show ?case by simp
next
  case (Cons d rest)
  show ?case
  proof (cases "length W < k")
    case False
    with Cons.prems have "W' = W" "F' = d # rest" "P' = P" by simp_all
    then show ?thesis
      by (intro exI [of _ "[]"] exI [of _ "0::nat"]) simp
  next
    case k: True
    show ?thesis
    proof (cases "d \<in> P")
      case True
      with k Cons.prems have "take_wave k rest P W = (W', F', P')" by simp
      from Cons.IH [OF this] obtain new n where
        h: "W' = W @ new" "F' = drop n rest" "P' = P \<union> set new" "distinct new"
          "set new \<inter> P = {}" "set new \<subseteq> set (take n rest)" "set (take n rest) \<subseteq> P'"
        by blast
      with True show ?thesis
        by (intro exI [of _ new] exI [of _ "Suc n"]) auto
    next
      case False
      with k Cons.prems have "take_wave k rest (insert d P) (W @ [d]) = (W', F', P')" by simp
      from Cons.IH [OF this] obtain new n where
        h: "W' = (W @ [d]) @ new" "F' = drop n rest" "P' = insert d P \<union> set new" "distinct new"
          "set new \<inter> insert d P = {}" "set new \<subseteq> set (take n rest)"
          "set (take n rest) \<subseteq> P'"
        by blast
      with False show ?thesis
        by (intro exI [of _ "d # new"] exI [of _ "Suc n"]) auto
    qed
  qed
qed

lemma take_wave_fresh:
  "distinct F \<Longrightarrow> set F \<inter> P = {} \<Longrightarrow>
     take_wave k F P W
       = (W @ take (k - length W) F, drop (k - length W) F, P \<union> set (take (k - length W) F))"
proof (induction F arbitrary: P W)
  case Nil
  then show ?case by simp
next
  case (Cons d rest)
  show ?case
  proof (cases "length W < k")
    case False
    then show ?thesis by simp
  next
    case True
    then obtain m where m: "k - length W = Suc m" by (cases "k - length W") auto
    then have m': "k - length (W @ [d]) = m" by simp
    from Cons.prems have "distinct rest" "set rest \<inter> insert d P = {}" "d \<notin> P" by auto
    from Cons.IH [OF this(1,2), of "W @ [d]"] True \<open>d \<notin> P\<close> show ?thesis
      unfolding m' by (simp add: m)
  qed
qed

lemma wave_step_eq:
  "wave_step scan sink bs s =
     (case take_wave max_parallel_dirs (directories_to_process s) (processed_directories s) [] of
        (W, F', P') \<Rightarrow>
          process_results sink bs (map scan W)
            (s\<lparr>wave_number := wave_number s + 1, directories_to_process := F',
               processed_directories := P', scanned := scanned s @ W\<rparr>))"
  by (simp add: wave_step_def Let_def split: prod.splits)

lemma wave_step_cases:
  assumes "wave_step scan sink bs s = Some s'"
  obtains W n where "distinct W" and "set W \<inter> processed_directories s = {}"
    and "set W \<subseteq> set (take n (directories_to_process s))"
    and "set (take n (directories_to_process s)) \<subseteq> processed_directories s \<union> set W"
    and "take_wave max_parallel_dirs (directories_to_process s) (processed_directories s) []
           = (W, drop n (directories_to_process s), processed_directories s \<union> set W)"
    and "process_results sink bs (map scan W)
           (s\<lparr>wave_number := wave_number s + 1,
              directories_to_process := drop n (directories_to_process s),
              processed_directories := processed_directories s \<union> set W,
              scanned := scanned s @ W\<rparr>) = Some s'"
proof -
  obtain W F' P' where tw: "take_wave max_parallel_dirs (directories_to_process s)
      (processed_directories s) [] = (W, F', P')"
    by (metis prod_cases3)
  from take_wave_props [OF tw] obtain n where
    h: "F' = drop n (directories_to_process s)" "P' = processed_directories s \<union> set W"
      "distinct W" "set W \<inter> processed_directories s = {}"
      "set W \<subseteq> set (take n (directories_to_process s))"
      "set (take n (directories_to_process s)) \<subseteq> P'"
    by auto
  from assms tw have "process_results sink bs (map scan W)
            (s\<lparr>wave_number := wave_number s + 1, directories_to_process := F',
               processed_directories := P', scanned := scanned s @ W\<rparr>) = Some s'"
    by (simp add: wave_step_eq)
  with h tw show thesis
    by (intro that [of W n]) simp_all
qed

lemma wave_inv_initial: "wave_inv scan sink bs initial_state"
  by (simp add: wave_inv_def initial_state_def received_def log_ok_def)

lemma wave_inv_step:
  assumes inv: "wave_inv scan sink bs s" and st: "wave_step scan sink bs s = Some s'"
  shows "wave_inv scan sink bs s'"
proof -
  from st obtain W n where W: "distinct W" "set W \<inter> processed_directories s = {}"
    and pr: "process_results sink bs (map scan W)
           (s\<lparr>wave_number := wave_number s + 1,
              directories_to_process := drop n (directories_to_process s),
              processed_directories := processed_directories s \<union> set W,
              scanned := scanned s @ W\<rparr>) = Some s'"
    by (rule wave_step_cases)
  let ?s2 = "s\<lparr>wave_number := wave_number s + 1,
              directories_to_process := drop n (directories_to_process s),
              processed_directories := processed_directories s \<union> set W,
              scanned := scanned s @ W\<rparr>"
  note f = process_results_rel [OF pr, unfolded folded_def]
  from inv have i: "distinct (scanned s)" "set (scanned s) = processed_directories s"
    "received s = concat (map (\<lambda>d. result_records (scan d)) (scanned s))"
    "all_errors s = concat (map (\<lambda>d. result_errors (scan d)) (scanned s))"
    "log_ok sink s"
    "0 < bs \<longrightarrow> (\<forall>b \<in> set (delivered s). length (fst b) = nat bs)
           \<and> length (current_batch s) < nat bs"
    by (simp_all add: wave_inv_def)
  have l2: "log_ok sink ?s2" using i(5) by (simp add: log_ok_def)
  have r2: "received ?s2 = received s" by (simp add: received_def)
  from f obtain new where n: "delivered s' = delivered s @ new"
    "0 < bs \<longrightarrow> (\<forall>b \<in> set new. length (fst b) = nat bs)" by auto
  show ?thesis
    unfolding wave_inv_def
  proof (intro conjI)
    show "distinct (scanned s')" using f i W by auto
    show "set (scanned s') = processed_directories s'" using f i by auto
    show "received s' = concat (map (\<lambda>d. result_records (scan d)) (scanned s'))"
      using f i(3) r2 by (simp add: comp_def)
    show "all_errors s' = concat (map (\<lambda>d. result_errors (scan d)) (scanned s'))"
      using f i(4) by (simp add: comp_def)
    show "log_ok sink s'" using f l2 by blast
    show "0 < bs \<longrightarrow> (\<forall>b \<in> set (delivered s'). length (fst b) = nat bs)
           \<and> length (current_batch s') < nat bs"
      using f i(6) n by auto
  qed
qed

lemma reachable_wave_inv: "reachable scan sink bs s \<Longrightarrow> wave_inv scan sink bs s"
  by (induction rule: reachable.induct) (auto intro: wave_inv_initial wave_inv_step)

lemma wave_loop_reachable:
  assumes "wave_loop scan sink bs s = Some s'" and "reachable scan sink bs s"
  shows "reachable scan sink bs s' \<and> directories_to_process s' = []"
proof -
  have "reachable scan sink bs s \<longrightarrow> reachable scan sink bs s' \<and> directories_to_process s' = []"
  proof (rule wave_loop.raw_induct [where P = "\<lambda>scan sink bs s s'.
      reachable scan sink bs s \<longrightarrow> reachable scan sink bs s' \<and> directories_to_process s' = []",
      OF _ assms(1)])
    fix loop :: "'a scan \<Rightarrow> 'a sink \<Rightarrow> int \<Rightarrow> 'a orch_state \<Rightarrow> 'a orch_state option"
      and scan sink bs s s'
    assume ih: "\<And>scan sink bs s s'. loop scan sink bs s = Some s' \<Longrightarrow>
        reachable scan sink bs s \<longrightarrow> reachable scan sink bs s' \<and> directories_to_process s' = []"
      and eq: "(if directories_to_process s = [] then Some s
        else case wave_step scan sink bs s of None \<Rightarrow> None
             | Some s' \<Rightarrow> loop scan sink bs s') = Some s'"
    show "reachable scan sink bs s \<longrightarrow> reachable scan sink bs s' \<and> directories_to_process s' = []"
    proof (cases "directories_to_process s = []")
      case True
      with eq show ?thesis by simp
    next
      case False
      with eq obtain s1 where s1: "wave_step scan sink bs s = Some s1"
        and l: "loop scan sink bs s1 = Some s'"
        by (auto split: option.splits)
      from ih [OF l] reachable_step [OF _ False s1] show ?thesis by blast
    qed
  qed
  with assms(2) show ?thesis by blast
qed


text \<open>The equations that evaluate a run on concrete data.\<close>

lemmas run_eval = orchestrator_file_share_def wave_loop.simps wave_step_def
  drain_full_batches.simps fold_result_def absorb_result_def send_batch_def flush_remainder_def
  build_result_def initial_state_def max_parallel_dirs_def slice_to_def slice_from_def
  accepted_def Let_def

lemma concat_length_uniform:
  "(\<forall>b \<in> set xs. length b = k) \<Longrightarrow> length (concat xs) = k * length xs"
  by (induction xs) simp_all

lemma flush_remainder_fields:
  "scanned (flush_remainder sink s) = scanned s"
  "all_errors (flush_remainder sink s) = all_errors s"
  "processed_directories (flush_remainder sink s) = processed_directories s"
  "wave_number (flush_remainder sink s) = wave_number s"
  "directories_to_process (flush_remainder sink s) = directories_to_process s"
  "total_files_processed (flush_remainder sink s) = total_files_processed s"
  "total_bytes_processed (flush_remainder sink s) = total_bytes_processed s"
  "delivered (flush_remainder sink s) = delivered s
     @ (if current_batch s = [] then []
        else [(current_batch s, sink (length (delivered s)) (current_batch s))])"
  "concat (map fst (delivered (flush_remainder sink s))) = received s"
  by (simp_all add: flush_remainder_def send_batch_fields received_def)

lemma log_ok_flush_remainder: "log_ok sink s \<Longrightarrow> log_ok sink (flush_remainder sink s)"
  by (simp add: flush_remainder_def log_ok_send_batch)

lemma orchestrator_file_share_final:
  assumes "orchestrator_file_share utcnow scan sink input_data = Some (res, sf)"
  obtains s where "wave_loop scan sink (batch_size input_data) initial_state = Some s"
    and "sf = flush_remainder sink s" and "res = build_result utcnow input_data sf"
    and "reachable scan sink (batch_size input_data) s" and "directories_to_process s = []"
    and "wave_inv scan sink (batch_size input_data) s"
proof -
  from assms obtain s where s: "wave_loop scan sink (batch_size input_data) initial_state = Some s"
    and f: "sf = flush_remainder sink s" and r: "res = build_result utcnow input_data sf"
    by (auto simp: orchestrator_file_share_def Let_def split: option.splits)
  from wave_loop_reachable [OF s reachable_initial]
  have "reachable scan sink (batch_size input_data) s" "directories_to_process s = []"
    by simp_all
  with s f r reachable_wave_inv [of scan sink "batch_size input_data" s] show thesis
    by (intro that [of s]) simp_all
qed

lemmas main_eval = orchestrator_main_def share_input_of_def aggregate_def

lemma those_map_Some:
  "those (map f xs) = Some ys \<Longrightarrow> ys = map (\<lambda>x. the (f x)) xs"
proof (induction xs arbitrary: ys)
  case Nil
  then show ?case by simp
next
  case (Cons x xs)
  then show ?case
    by (cases "f x"; cases "those (map f xs)") auto
qed

lemma share_clock_independent:
  "map_option (\<lambda>(r, s). (without_clock r, s)) (orchestrator_file_share t1 scan sink input_data)
     = map_option (\<lambda>(r, s). (without_clock r, s)) (orchestrator_file_share t2 scan sink input_data)"
  by (cases "wave_loop scan sink (batch_size input_data) initial_state")
    (simp_all add: orchestrator_file_share_def Let_def build_result_def without_clock_def)

lemma share_result_clock_independent:
  "map_option without_clock (map_option fst (orchestrator_file_share t1 scan sink input_data))
     = map_option without_clock (map_option fst (orchestrator_file_share t2 scan sink input_data))"
  by (cases "wave_loop scan sink (batch_size input_data) initial_state")
    (simp_all add: orchestrator_file_share_def Let_def build_result_def without_clock_def)

lemma those_cong:
  assumes "\<And>x. map_option g (f1 x) = map_option g (f2 x)"
  shows "map_option (map g) (those (map f1 xs)) = map_option (map g) (those (map f2 xs))"
proof (induction xs)
  case Nil
  show ?case by simp
next
  case (Cons x xs)
  from assms [of x] Cons show ?case
    by (cases "f1 x"; cases "f2 x"; cases "those (map f1 xs)"; cases "those (map f2 xs)") auto
qed

lemma map_through:
  assumes "map g xs = map g ys" and "\<And>x. h (g x) = h x"
  shows "map h xs = map h ys"
proof -
  have "map h xs = map h (map g xs)" by (simp add: assms(2))
  also have "\<dots> = map h (map g ys)" by (simp only: assms(1))
  also have "\<dots> = map h ys" by (simp add: assms(2))
  finally show ?thesis .
qed

lemma aggregate_clock_independent:
  assumes "map without_clock rs1 = map without_clock rs2"
  shows "report_without_clock (aggregate b1 main_input names rs1)
     = report_without_clock (aggregate b2 main_input names rs2)"
proof -
  have "map share_files_processed rs1 = map share_files_processed rs2"
    "map share_bytes_processed rs1 = map share_bytes_processed rs2"
    "map batches_sent rs1 = map batches_sent rs2"
    "map (\<lambda>r. length (share_errors r)) rs1 = map (\<lambda>r. length (share_errors r)) rs2"
    by (rule map_through [OF assms], simp add: without_clock_def)+
  with assms show ?thesis
    by (simp add: aggregate_def report_without_clock_def)
qed

section \<open>Properties of directory trees and of their traversal\<close>

lemma paths_nodes: "map fst (nodes t) = paths t"
  by (induction t) (simp add: map_concat cong: map_cong)

lemma mset_concat_map: "mset (concat (map f xs)) = (\<Sum>x\<in>#mset xs. mset (f x))"
  by (induction xs) simp_all

lemma mset_paths:
  "mset (paths t) = {#root_path t#} + mset (concat (map snd (nodes t)))"
proof (induction t)
  case (Dir p ts)
  have "mset (concat (map paths ts))
      = mset (map root_path ts) + mset (concat (map snd (concat (map nodes ts))))"
    using Dir.IH
  proof (induction ts)
    case Nil
    show ?case by simp
  next
    case (Cons c cs)
    then show ?case by (simp add: ac_simps)
  qed
  then show ?case by simp
qed

lemma presents_kids:
  assumes "presents scan t"
  shows "map (\<lambda>d. result_subdirs (scan d)) (paths t) = map snd (nodes t)"
proof -
  from assms have "\<forall>n \<in> set (nodes t). result_subdirs (scan (fst n)) = snd n"
    by (auto simp: presents_def list_all_iff)
  then have "map (\<lambda>n. result_subdirs (scan (fst n))) (nodes t) = map snd (nodes t)"
    by (intro map_cong) simp_all
  then show ?thesis
    by (simp add: paths_nodes [symmetric] comp_def)
qed

lemma presents_child:
  "presents scan (Dir p ts) \<Longrightarrow> c \<in> set ts \<Longrightarrow> presents scan c"
  by (auto simp: presents_def list_all_iff)

lemma presents_root:
  "presents scan (Dir p ts) \<Longrightarrow> result_subdirs (scan p) = map root_path ts"
  by (simp add: presents_def)

lemma mset_paths_kids:
  assumes "presents scan t"
  shows "mset (paths t)
     = {#root_path t#} + mset (concat (map (\<lambda>d. result_subdirs (scan d)) (paths t)))"
  by (simp only: mset_paths [of t] presents_kids [OF assms])

lemma concat_map_mono:
  assumes "mset D \<subseteq># mset N"
  shows "mset (concat (map f D)) \<subseteq># mset (concat (map f N))"
proof -
  from assms obtain C where "mset N = mset D + C"
    by (auto simp: mset_subset_eq_exists_conv)
  then have "mset (concat (map f N)) = mset (concat (map f D)) + (\<Sum>x\<in>#C. mset (f x))"
    by (simp add: mset_concat_map)
  then show ?thesis by simp
qed

lemma distinct_sub_mset:
  assumes "mset xs \<subseteq># mset ys" and "distinct ys"
  shows "distinct xs \<and> set xs \<subseteq> set ys"
proof
  have "count (mset xs) a = (if a \<in> set xs then 1 else 0)" for a
  proof (cases "a \<in> set xs")
    case True
    then have "0 < count (mset xs) a" by simp
    moreover from assms(1) have "count (mset xs) a \<le> count (mset ys) a"
      by (rule mset_subset_eq_count)
    moreover from assms(2) have "count (mset ys) a \<le> 1"
      by (simp add: distinct_count_atmost_1)
    ultimately have "count (mset xs) a = 1" by linarith
    with True show ?thesis by simp
  next
    case False
    then show ?thesis by (simp add: count_eq_zero_iff)
  qed
  then show "distinct xs" by (simp add: distinct_count_atmost_1)
  from assms(1) show "set xs \<subseteq> set ys"
    using set_mset_mono by fastforce
qed

lemma tree_kids_distinct:
  assumes pr: "presents scan t" and dt: "distinct (paths t)"
    and dD: "distinct D" and sD: "set D \<subseteq> set (paths t)"
  shows "distinct (root_path t # concat (map (\<lambda>d. result_subdirs (scan d)) D))
     \<and> set (root_path t # concat (map (\<lambda>d. result_subdirs (scan d)) D)) \<subseteq> set (paths t)"
proof -
  let ?k = "\<lambda>d. result_subdirs (scan d)"
  have "mset D \<subseteq># mset (paths t)"
  proof (rule mset_subset_eqI)
    fix a
    show "count (mset D) a \<le> count (mset (paths t)) a"
    proof (cases "a \<in> set D")
      case True
      with dD have "count (mset D) a = 1" by (simp add: distinct_count_atmost_1)
      moreover from True sD have "0 < count (mset (paths t)) a" by auto
      ultimately show ?thesis by simp
    next
      case False
      then have z: "count (mset D) a = 0" by (simp add: count_eq_zero_iff)
      show ?thesis unfolding z by (rule le0)
    qed
  qed
  then have m: "mset (concat (map ?k D)) \<subseteq># mset (concat (map ?k (paths t)))"
    by (rule concat_map_mono)
  have sub: "mset (root_path t # concat (map ?k D)) \<subseteq># mset (paths t)"
    by (subst mset_paths_kids [OF pr]) (simp add: m)
  from distinct_sub_mset [OF sub dt] show ?thesis .
qed

lemma tree_closure:
  assumes "presents scan t" and "root_path t \<in> S"
    and "\<forall>p \<in> set (paths t). p \<in> S \<longrightarrow> set (result_subdirs (scan p)) \<subseteq> S"
  shows "set (paths t) \<subseteq> S"
  using assms
proof (induction t)
  case (Dir p ts)
  have "set (paths c) \<subseteq> S" if c: "c \<in> set ts" for c
  proof (rule Dir.IH [OF c presents_child [OF Dir.prems(1) c]])
    from Dir.prems(2,3) have "set (result_subdirs (scan p)) \<subseteq> S" by simp
    with presents_root [OF Dir.prems(1)] c show "root_path c \<in> S" by auto
    from Dir.prems(3) c
    show "\<forall>q \<in> set (paths c). q \<in> S \<longrightarrow> set (result_subdirs (scan q)) \<subseteq> S"
      by auto
  qed
  with Dir.prems(2) show ?case by auto
qed

lemma level_0: "level 0 t = [root_path t]"
  by (cases t) simp

lemma concat_map_concat: "concat (map f (concat xss)) = concat (map (\<lambda>xs. concat (map f xs)) xss)"
  by (induction xss) simp_all

lemma level_kids:
  "presents scan t \<Longrightarrow>
     concat (map (\<lambda>d. result_subdirs (scan d)) (level k t)) = level (Suc k) t"
proof (induction k arbitrary: t)
  case 0
  then show ?case
    by (cases t) (simp add: presents_root level_0 [abs_def] comp_def)
next
  case (Suc k)
  obtain p ts where t: "t = Dir p ts" by (cases t)
  have "concat (map (\<lambda>d. result_subdirs (scan d)) (level k c)) = level (Suc k) c"
    if "c \<in> set ts" for c
    using Suc.IH [OF presents_child [OF Suc.prems [unfolded t] that]] .
  then have m: "map (\<lambda>c. concat (map (\<lambda>d. result_subdirs (scan d)) (level k c))) ts
      = map (level (Suc k)) ts"
    by (intro map_cong) simp_all
  have "concat (map (\<lambda>d. result_subdirs (scan d)) (level (Suc k) (Dir p ts)))
      = concat (map (\<lambda>xs. concat (map (\<lambda>d. result_subdirs (scan d)) xs)) (map (level k) ts))"
    by (simp add: concat_map_concat)
  also have "\<dots> = concat (map (\<lambda>c. concat (map (\<lambda>d. result_subdirs (scan d)) (level k c))) ts)"
    by (simp add: comp_def)
  also have "\<dots> = concat (map (level (Suc k)) ts)"
    by (simp only: m)
  also have "\<dots> = level (Suc (Suc k)) (Dir p ts)"
    by simp
  finally show ?case
    unfolding t .
qed

lemma fold_max_le: "fold max xs a \<le> (k::nat) \<longleftrightarrow> a \<le> k \<and> (\<forall>x \<in> set xs. x \<le> k)"
  by (induction xs arbitrary: a) auto

lemma level_empty: "level k t = [] \<longleftrightarrow> depth t \<le> k"
proof (induction k arbitrary: t)
  case 0
  show ?case by (cases t) simp
next
  case (Suc k)
  obtain p ts where t: "t = Dir p ts" by (cases t)
  show ?case
    unfolding t by (simp add: fold_max_le Suc.IH)
qed

lemma level_width: "k < depth t \<Longrightarrow> length (level k t) \<le> width t"
proof -
  assume "k < depth t"
  then have "length (level k t) \<in> set (map (\<lambda>k. length (level k t)) [0 ..< depth t])"
    by simp
  moreover have "fold max xs a \<le> fold max xs a" for xs :: "nat list" and a by simp
  ultimately show ?thesis
    unfolding width_def using fold_max_le by blast
qed

lemma filter_noop:
  "(\<forall>x \<in> set (concat (map f W)). Q x) \<Longrightarrow> concat (map (\<lambda>w. filter Q (f w)) W) = concat (map f W)"
  by (induction W) simp_all

lemma bfs_inv_initial: "bfs_inv scan t initial_state"
  by (simp add: bfs_inv_def initial_state_def)

lemma bfs_inv_frontier:
  assumes "presents scan t" and "distinct (paths t)" and "root_path t = ''''"
    and "bfs_inv scan t s"
  shows "distinct (scanned s @ directories_to_process s)
     \<and> set (scanned s @ directories_to_process s) \<subseteq> set (paths t)"
proof -
  from assms(4) have d: "distinct (scanned s)" "set (scanned s) \<subseteq> set (paths t)"
    and q: "scanned s @ directories_to_process s
          = '''' # concat (map (\<lambda>d. result_subdirs (scan d)) (scanned s))"
    by (simp_all add: bfs_inv_def)
  from tree_kids_distinct [OF assms(1,2) d] show ?thesis
    unfolding q assms(3) .
qed

lemma tree_step:
  assumes pr: "presents scan t" and dt: "distinct (paths t)" and rt: "root_path t = ''''"
    and bs: "0 < bs" and inv: "bfs_inv scan t s"
  shows "\<exists>s'. wave_step scan sink bs s = Some s' \<and> bfs_inv scan t s'
     \<and> scanned s' = scanned s @ take max_parallel_dirs (directories_to_process s)
     \<and> directories_to_process s' = drop max_parallel_dirs (directories_to_process s)
          @ concat (map (\<lambda>d. result_subdirs (scan d))
              (take max_parallel_dirs (directories_to_process s)))
     \<and> wave_number s' = Suc (wave_number s)"
proof -
  let ?k = "\<lambda>d. result_subdirs (scan d)"
  let ?F = "directories_to_process s" and ?D = "scanned s" and ?P = "processed_directories s"
  let ?W = "take max_parallel_dirs ?F" and ?F' = "drop max_parallel_dirs ?F"
  from inv have P: "?P = set ?D"
    and q: "?D @ ?F = '''' # concat (map ?k ?D)"
    by (simp_all add: bfs_inv_def)
  from bfs_inv_frontier [OF pr dt rt inv]
  have dDF: "distinct (?D @ ?F)" and sDF: "set (?D @ ?F) \<subseteq> set (paths t)" by simp_all
  from dDF P have dF: "distinct ?F" and FP: "set ?F \<inter> ?P = {}" by auto
  have tw: "take_wave max_parallel_dirs ?F ?P [] = (?W, ?F', ?P \<union> set ?W)"
    using take_wave_fresh [OF dF FP, of max_parallel_dirs "[]"] by simp
  let ?s2 = "s\<lparr>wave_number := wave_number s + 1, directories_to_process := ?F',
               processed_directories := ?P \<union> set ?W, scanned := ?D @ ?W\<rparr>"
  have ws: "wave_step scan sink bs s = process_results sink bs (map scan ?W) ?s2"
    by (simp add: wave_step_eq tw)
  from process_results_total [OF bs] obtain s' where
    pr': "process_results sink bs (map scan ?W) ?s2 = Some s'" by blast
  note f = process_results_rel [OF pr', unfolded folded_def]
  have WF: "?W @ ?F' = ?F" by simp
  from dDF dF have dD': "distinct (?D @ ?W)" by (auto dest: in_set_takeD)
  from sDF have sD': "set (?D @ ?W) \<subseteq> set (paths t)" by (auto dest: in_set_takeD)
  from tree_kids_distinct [OF pr dt dD' sD']
  have dk: "distinct ('''' # concat (map ?k (?D @ ?W)))" unfolding rt by simp
  have q': "'''' # concat (map ?k (?D @ ?W)) = (?D @ ?W) @ ?F' @ concat (map ?k ?W)"
  proof -
    have "'''' # concat (map ?k (?D @ ?W)) = ('''' # concat (map ?k ?D)) @ concat (map ?k ?W)"
      by simp
    also have "\<dots> = (?D @ ?F) @ concat (map ?k ?W)" by (simp only: q)
    also have "\<dots> = (?D @ ?W) @ ?F' @ concat (map ?k ?W)"
      by simp
    finally show ?thesis .
  qed
  from dk have "distinct ((?D @ ?W) @ ?F' @ concat (map ?k ?W))" unfolding q' .
  then have "set (concat (map ?k ?W)) \<inter> set (?D @ ?W) = {}" by auto
  then have "\<forall>x \<in> set (concat (map ?k ?W)). x \<notin> ?P \<and> x \<notin> set ?W"
    unfolding P by auto
  from filter_noop [OF this]
  have fl: "concat (map (\<lambda>w. filter (\<lambda>d. d \<notin> ?P \<and> d \<notin> set ?W) (?k w)) ?W)
      = concat (map ?k ?W)" .
  from f have F': "directories_to_process s' = ?F' @ concat (map ?k ?W)"
    by (simp add: comp_def fl)
  from f have sc: "scanned s' = ?D @ ?W" and pp: "processed_directories s' = ?P \<union> set ?W"
    and wn: "wave_number s' = Suc (wave_number s)"
    by simp_all
  have "bfs_inv scan t s'"
    unfolding bfs_inv_def sc pp F' using dD' sD' P q' by simp
  with ws pr' sc F' wn show ?thesis by simp
qed

lemma bfs_inv_length:
  assumes "bfs_inv scan t s"
  shows "length (scanned s) \<le> length (paths t)"
proof -
  from assms have d: "distinct (scanned s)" and s: "set (scanned s) \<subseteq> set (paths t)"
    by (simp_all add: bfs_inv_def)
  from d have "length (scanned s) = card (set (scanned s))" by (simp add: distinct_card)
  also from s have "\<dots> \<le> card (set (paths t))" by (intro card_mono) simp_all
  also have "\<dots> \<le> length (paths t)" by (rule card_length)
  finally show ?thesis .
qed

lemma tree_loop:
  assumes pr: "presents scan t" and dt: "distinct (paths t)" and rt: "root_path t = ''''"
    and bs: "0 < bs"
  shows "bfs_inv scan t s \<Longrightarrow>
     \<exists>s'. wave_loop scan sink bs s = Some s' \<and> bfs_inv scan t s'
        \<and> directories_to_process s' = []"
proof (induction "length (paths t) - length (scanned s)" arbitrary: s rule: less_induct)
  case less
  show ?case
  proof (cases "directories_to_process s = []")
    case True
    with less.prems show ?thesis
      by (subst wave_loop.simps) simp
  next
    case False
    from tree_step [OF pr dt rt bs less.prems, of sink] obtain s1 where
      st: "wave_step scan sink bs s = Some s1" and inv1: "bfs_inv scan t s1"
      and sc: "scanned s1 = scanned s @ take max_parallel_dirs (directories_to_process s)"
      by blast
    from False have "take max_parallel_dirs (directories_to_process s) \<noteq> []"
      by (simp add: max_parallel_dirs_def)
    with sc have "length (scanned s) < length (scanned s1)" by simp
    with bfs_inv_length [OF inv1]
    have "length (paths t) - length (scanned s1) < length (paths t) - length (scanned s)"
      by simp
    from less.hyps [OF this inv1] obtain s' where
      "wave_loop scan sink bs s1 = Some s'" "bfs_inv scan t s'" "directories_to_process s' = []"
      by blast
    with False st show ?thesis
      by (subst wave_loop.simps) simp
  qed
qed

lemma tree_final:
  assumes pr: "presents scan t" and rt: "root_path t = ''''"
    and inv: "bfs_inv scan t s" and e: "directories_to_process s = []"
  shows "set (scanned s) = set (paths t)"
proof
  from inv show "set (scanned s) \<subseteq> set (paths t)" by (simp add: bfs_inv_def)
  from inv e have q: "scanned s = '''' # concat (map (\<lambda>d. result_subdirs (scan d)) (scanned s))"
    by (simp add: bfs_inv_def)
  show "set (paths t) \<subseteq> set (scanned s)"
  proof (rule tree_closure [OF pr])
    show "root_path t \<in> set (scanned s)"
      unfolding rt by (subst q) simp
    show "\<forall>p \<in> set (paths t). p \<in> set (scanned s)
        \<longrightarrow> set (result_subdirs (scan p)) \<subseteq> set (scanned s)"
    proof (intro ballI impI)
      fix p assume "p \<in> set (paths t)" "p \<in> set (scanned s)"
      then have "set (result_subdirs (scan p))
          \<subseteq> set (concat (map (\<lambda>d. result_subdirs (scan d)) (scanned s)))"
        by auto
      also have "\<dots> \<subseteq> set (scanned s)"
        by (subst (2) q) auto
      finally show "set (result_subdirs (scan p)) \<subseteq> set (scanned s)" .
    qed
  qed
qed

lemma tree_waves:
  assumes pr: "presents scan t" and dt: "distinct (paths t)" and rt: "root_path t = ''''"
    and bs: "0 < bs" and w: "width t \<le> max_parallel_dirs"
  shows "bfs_inv scan t s \<Longrightarrow> directories_to_process s = level k t \<Longrightarrow> wave_number s = k
     \<Longrightarrow> k \<le> depth t \<Longrightarrow> wave_loop scan sink bs s = Some s' \<Longrightarrow> wave_number s' = depth t"
proof (induction "depth t - k" arbitrary: s k rule: less_induct)
  case less
  show ?case
  proof (cases "directories_to_process s = []")
    case True
    with less.prems(5) have "s' = s" by (subst (asm) wave_loop.simps) simp
    moreover from True less.prems(2) have "depth t \<le> k" by (simp add: level_empty)
    ultimately show ?thesis using less.prems(3,4) by simp
  next
    case False
    with less.prems(2) have k: "k < depth t"
      using level_empty [of k t] by simp
    from tree_step [OF pr dt rt bs less.prems(1), of sink] obtain s1 where
      st: "wave_step scan sink bs s = Some s1" and inv1: "bfs_inv scan t s1"
      and fr: "directories_to_process s1 = drop max_parallel_dirs (directories_to_process s)
          @ concat (map (\<lambda>d. result_subdirs (scan d))
              (take max_parallel_dirs (directories_to_process s)))"
      and wn: "wave_number s1 = Suc (wave_number s)"
      by blast
    from level_width [OF k] w less.prems(2)
    have "length (directories_to_process s) \<le> max_parallel_dirs" by simp
    with fr have "directories_to_process s1
        = concat (map (\<lambda>d. result_subdirs (scan d)) (directories_to_process s))"
      by simp
    with less.prems(2) level_kids [OF pr, of k]
    have fr1: "directories_to_process s1 = level (Suc k) t" by simp
    from wn less.prems(3) have wn1: "wave_number s1 = Suc k" by simp
    from False st less.prems(5) have l1: "wave_loop scan sink bs s1 = Some s'"
      by (subst (asm) wave_loop.simps) simp
    from k have "depth t - Suc k < depth t - k" "Suc k \<le> depth t" by simp_all
    from less.hyps [OF this(1) inv1 fr1 wn1 this(2) l1] show ?thesis .
  qed
qed

lemma drain_positive:
  assumes "drain_full_batches sink bs s = Some s'"
  shows "0 < bs"
proof (rule drain_full_batches.raw_induct [where P = "\<lambda>sink bs s s'. 0 < bs", OF _ assms])
  fix drain :: "'a sink \<Rightarrow> int \<Rightarrow> 'a orch_state \<Rightarrow> 'a orch_state option"
    and sink bs s s'
  assume ih: "\<And>sink bs s s'. drain sink bs s = Some s' \<Longrightarrow> 0 < bs"
    and eq: "(if bs \<le> int (length (current_batch s))
        then drain sink bs (send_batch sink (slice_to bs (current_batch s))
                (s\<lparr>current_batch := slice_from bs (current_batch s)\<rparr>))
        else Some s) = Some s'"
  show "0 < bs"
  proof (cases "bs \<le> int (length (current_batch s))")
    case True
    with eq ih show ?thesis by simp
  next
    case False
    then show ?thesis by simp
  qed
qed

lemma drain_nonpositive: "bs \<le> 0 \<Longrightarrow> drain_full_batches sink bs s = None"
  using drain_positive [of sink bs s] by (cases "drain_full_batches sink bs s") auto

section \<open>Independence of the sink\<close>

lemma same_but_sink_refl: "same_but_sink s s"
  by (simp add: same_but_sink_def)

lemma same_but_sink_sym: "same_but_sink s s' \<Longrightarrow> same_but_sink s' s"
  by (simp add: same_but_sink_def)

lemma same_but_sink_turn:
  "same_but_sink s1 s2 \<Longrightarrow> same_but_sink (drain_turn sink1 bs s1) (drain_turn sink2 bs s2)"
  by (simp add: same_but_sink_def drain_turn_def send_batch_fields)

lemma drain_unfold:
  "bs \<le> int (length (current_batch s)) \<Longrightarrow>
     drain_full_batches sink bs s = drain_full_batches sink bs (drain_turn sink bs s)"
  by (subst drain_full_batches.simps) (simp add: drain_turn_def)

lemma drain_stop:
  "\<not> bs \<le> int (length (current_batch s)) \<Longrightarrow> drain_full_batches sink bs s = Some s"
  by (subst drain_full_batches.simps) simp

lemma drain_same_but_sink:
  assumes "same_but_sink s1 s2"
  shows "rel_option same_but_sink (drain_full_batches sink1 bs s1) (drain_full_batches sink2 bs s2)"
proof (cases "0 < bs")
  case False
  then show ?thesis by (simp add: drain_nonpositive)
next
  case pos: True
  from assms show ?thesis
  proof (induction "length (current_batch s1)" arbitrary: s1 s2 rule: less_induct)
    case less
    from less.prems have cb: "current_batch s2 = current_batch s1"
      by (simp add: same_but_sink_def)
    show ?case
    proof (cases "bs \<le> int (length (current_batch s1))")
      case False
      with cb less.prems show ?thesis by (simp add: drain_stop)
    next
      case True
      have "length (current_batch (drain_turn sink1 bs s1)) < length (current_batch s1)"
        using True pos by (simp add: drain_turn_props slice_from_length)
      from less.hyps [OF this same_but_sink_turn [OF less.prems]]
      show ?thesis
        using True cb by (simp add: drain_unfold)
    qed
  qed
qed

lemma same_but_sink_absorb:
  "same_but_sink s1 s2 \<Longrightarrow> same_but_sink (absorb_result r s1) (absorb_result r s2)"
  by (simp add: same_but_sink_def absorb_fields)

lemma process_results_same_but_sink:
  "same_but_sink s1 s2 \<Longrightarrow>
     rel_option same_but_sink (process_results sink1 bs rs s1) (process_results sink2 bs rs s2)"
proof (induction rs arbitrary: s1 s2)
  case Nil
  then show ?case by simp
next
  case (Cons r rs)
  show ?case
  proof (cases r)
    case None
    with Cons show ?thesis by simp
  next
    case (Some result)
    from drain_same_but_sink [OF same_but_sink_absorb [OF Cons.prems], of sink1 bs result sink2]
    have d: "rel_option same_but_sink (fold_result sink1 bs result s1)
        (fold_result sink2 bs result s2)"
      by (simp add: fold_result_def)
    show ?thesis
    proof (cases "fold_result sink1 bs result s1")
      case None
      with d have "fold_result sink2 bs result s2 = None" by simp
      with None Some show ?thesis by simp
    next
      case s1': (Some s1')
      with d obtain s2' where s2': "fold_result sink2 bs result s2 = Some s2'"
        and sb: "same_but_sink s1' s2'"
        by (cases "fold_result sink2 bs result s2") auto
      from Cons.IH [OF sb] s1' s2' Some show ?thesis by simp
    qed
  qed
qed

lemma wave_step_same_but_sink:
  assumes "same_but_sink s1 s2"
  shows "rel_option same_but_sink (wave_step scan sink1 bs s1) (wave_step scan sink2 bs s2)"
proof -
  from assms have f: "directories_to_process s2 = directories_to_process s1"
    and p: "processed_directories s2 = processed_directories s1"
    by (simp_all add: same_but_sink_def)
  obtain W F' P' where tw: "take_wave max_parallel_dirs (directories_to_process s1)
      (processed_directories s1) [] = (W, F', P')"
    by (metis prod_cases3)
  have "same_but_sink
      (s1\<lparr>wave_number := wave_number s1 + 1, directories_to_process := F',
          processed_directories := P', scanned := scanned s1 @ W\<rparr>)
      (s2\<lparr>wave_number := wave_number s2 + 1, directories_to_process := F',
          processed_directories := P', scanned := scanned s2 @ W\<rparr>)"
    using assms by (simp add: same_but_sink_def)
  from process_results_same_but_sink [OF this, of sink1 bs "map scan W" sink2]
  show ?thesis
    by (simp add: wave_step_eq f p tw)
qed

lemma wave_loop_same_but_sink_Some:
  assumes "wave_loop scan sink1 bs s1 = Some r1"
  shows "same_but_sink s1 s2 \<longrightarrow>
     (\<exists>r2. wave_loop scan sink2 bs s2 = Some r2 \<and> same_but_sink r1 r2)"
proof -
  have "\<forall>sink2 s2. same_but_sink s1 s2 \<longrightarrow>
     (\<exists>r2. wave_loop scan sink2 bs s2 = Some r2 \<and> same_but_sink r1 r2)"
  proof (rule wave_loop.raw_induct [where P = "\<lambda>scan sink1 bs s1 r1.
      \<forall>sink2 s2. same_but_sink s1 s2 \<longrightarrow>
        (\<exists>r2. wave_loop scan sink2 bs s2 = Some r2 \<and> same_but_sink r1 r2)", OF _ assms])
    fix loop :: "'a scan \<Rightarrow> 'a sink \<Rightarrow> int \<Rightarrow> 'a orch_state \<Rightarrow> 'a orch_state option"
      and scan sink1 bs s1 r1
    assume ih: "\<And>scan sink1 bs s1 r1. loop scan sink1 bs s1 = Some r1 \<Longrightarrow>
        \<forall>sink2 s2. same_but_sink s1 s2 \<longrightarrow>
          (\<exists>r2. wave_loop scan sink2 bs s2 = Some r2 \<and> same_but_sink r1 r2)"
      and eq: "(if directories_to_process s1 = [] then Some s1
        else case wave_step scan sink1 bs s1 of None \<Rightarrow> None
             | Some s' \<Rightarrow> loop scan sink1 bs s') = Some r1"
    show "\<forall>sink2 s2. same_but_sink s1 s2 \<longrightarrow>
          (\<exists>r2. wave_loop scan sink2 bs s2 = Some r2 \<and> same_but_sink r1 r2)"
    proof (intro allI impI)
      fix sink2 s2 assume sb: "same_but_sink s1 s2"
      then have f: "directories_to_process s2 = directories_to_process s1"
        by (simp add: same_but_sink_def)
      show "\<exists>r2. wave_loop scan sink2 bs s2 = Some r2 \<and> same_but_sink r1 r2"
      proof (cases "directories_to_process s1 = []")
        case True
        with eq have "r1 = s1" by simp
        with True f sb show ?thesis
          by (subst wave_loop.simps) simp
      next
        case False
        with eq obtain s1' where st: "wave_step scan sink1 bs s1 = Some s1'"
          and l: "loop scan sink1 bs s1' = Some r1"
          by (auto split: option.splits)
        from wave_step_same_but_sink [OF sb, of scan sink1 bs sink2] st
        obtain s2' where st2: "wave_step scan sink2 bs s2 = Some s2'"
          and sb': "same_but_sink s1' s2'"
          by (cases "wave_step scan sink2 bs s2") auto
        from ih [OF l] sb' obtain r2 where "wave_loop scan sink2 bs s2' = Some r2"
          "same_but_sink r1 r2" by blast
        with False f st2 show ?thesis
          by (subst wave_loop.simps) simp
      qed
    qed
  qed
  then show ?thesis by blast
qed

lemma wave_loop_same_but_sink:
  assumes "same_but_sink s1 s2"
  shows "rel_option same_but_sink (wave_loop scan sink1 bs s1) (wave_loop scan sink2 bs s2)"
proof (cases "wave_loop scan sink1 bs s1")
  case (Some r1)
  from wave_loop_same_but_sink_Some [OF Some, of s2 sink2] assms Some show ?thesis
    by auto
next
  case None
  show ?thesis
  proof (cases "wave_loop scan sink2 bs s2")
    case n: None
    with None show ?thesis by simp
  next
    case (Some r2)
    from wave_loop_same_but_sink_Some [OF Some, of s1 sink1] same_but_sink_sym [OF assms] None
    show ?thesis by auto
  qed
qed

lemma same_but_sink_flush:
  "same_but_sink s1 s2 \<Longrightarrow>
     same_but_sink (flush_remainder sink1 s1) (flush_remainder sink2 s2)"
  by (simp add: same_but_sink_def flush_remainder_def send_batch_fields)

lemma build_result_same_but_sink:
  "same_but_sink s1 s2 \<Longrightarrow>
     without_batches (build_result utcnow input_data s1)
       = without_batches (build_result utcnow input_data s2)"
  by (simp add: same_but_sink_def build_result_def without_batches_def)

lemma share_sink_independent:
  "rel_option (\<lambda>(r1, s1) (r2, s2). without_batches r1 = without_batches r2 \<and> same_but_sink s1 s2)
     (orchestrator_file_share utcnow scan sink1 input_data)
     (orchestrator_file_share utcnow scan sink2 input_data)"
proof -
  from wave_loop_same_but_sink [OF same_but_sink_refl,
      of scan sink1 "batch_size input_data" initial_state sink2]
  show ?thesis
    by (cases "wave_loop scan sink1 (batch_size input_data) initial_state";
        cases "wave_loop scan sink2 (batch_size input_data) initial_state")
      (auto simp: orchestrator_file_share_def Let_def same_but_sink_flush
        build_result_same_but_sink same_but_sink_sym)
qed

lemma share_result_sink_independent:
  "map_option without_batches
       (map_option fst (orchestrator_file_share utcnow scan sink1 input_data))
     = map_option without_batches
       (map_option fst (orchestrator_file_share utcnow scan sink2 input_data))"
  using share_sink_independent [of utcnow scan sink1 input_data sink2]
  by (cases "orchestrator_file_share utcnow scan sink1 input_data";
      cases "orchestrator_file_share utcnow scan sink2 input_data") auto

lemma aggregate_sink_independent:
  assumes "map without_batches rs1 = map without_batches rs2"
  shows "report_without_batches (aggregate utcnow main_input names rs1)
     = report_without_batches (aggregate utcnow main_input names rs2)"
proof -
  have "map share_files_processed rs1 = map share_files_processed rs2"
    "map share_bytes_processed rs1 = map share_bytes_processed rs2"
    "map (\<lambda>r. length (share_errors r)) rs1 = map (\<lambda>r. length (share_errors r)) rs2"
    by (rule map_through [OF assms], simp add: without_batches_def)+
  with assms show ?thesis
    by (simp add: aggregate_def report_without_batches_def)
qed

lemma main_sink_independent:
  "run_without_batches
       (orchestrator_main utcnow_start utcnow_end share_utcnow list_shares scans sinks1 main_input)
     = run_without_batches
       (orchestrator_main utcnow_start utcnow_end share_utcnow list_shares scans sinks2 main_input)"
proof -
  let ?f1 = "\<lambda>n. map_option fst (orchestrator_file_share (share_utcnow n) (scans n) (sinks1 n)
      (share_input_of main_input n))"
  let ?f2 = "\<lambda>n. map_option fst (orchestrator_file_share (share_utcnow n) (scans n) (sinks2 n)
      (share_input_of main_input n))"
  have th: "map_option (map without_batches) (those (map ?f1 names))
      = map_option (map without_batches) (those (map ?f2 names))" for names
    by (rule those_cong) (rule share_result_sink_independent)
  show ?thesis
  proof (cases "if file_share_names main_input = [] then list_shares
      else Inr (file_share_names main_input)")
    case (Inl err)
    then show ?thesis
      by (simp add: orchestrator_main_def run_without_batches_def Let_def)
  next
    case (Inr names)
    show ?thesis
    proof (cases "names = []")
      case True
      with Inr show ?thesis
        by (simp add: orchestrator_main_def run_without_batches_def Let_def
            result_without_batches_def status_without_batches_def)
    next
      case False
      show ?thesis
      proof (cases "those (map ?f1 names)")
        case None
        with th [of names] have "those (map ?f2 names) = None" by simp
        with None Inr False show ?thesis
          by (simp add: orchestrator_main_def run_without_batches_def Let_def)
      next
        case (Some rs1)
        with th [of names] obtain rs2 where rs2: "those (map ?f2 names) = Some rs2"
          and eq: "map without_batches rs1 = map without_batches rs2"
          by (cases "those (map ?f2 names)") auto
        from Some rs2 Inr False aggregate_sink_independent [OF eq, of utcnow_end main_input names]
        show ?thesis
          by (simp add: orchestrator_main_def run_without_batches_def Let_def
              result_without_batches_def status_without_batches_def)
      qed
    qed
  qed
qed

section \<open>Executions over a recorded history\<close>

lemma replays_prefix: "replays sink' (A @ B) \<Longrightarrow> replays sink' A"
  by (simp add: replays_def enumerate_append_eq)

lemma replays_entry: "replays sink' (A @ (b, r) # C) \<Longrightarrow> sink' (length A) b = r"
  by (simp add: replays_def enumerate_append_eq)

lemma drain_replay:
  assumes "drain_full_batches sink bs s = Some s'" and "replays sink' (delivered s')"
  shows "drain_full_batches sink' bs s = Some s'"
proof -
  from drain_positive [OF assms(1)] have pos: "0 < bs" .
  from assms show ?thesis
  proof (induction "length (current_batch s)" arbitrary: s rule: less_induct)
    case less
    show ?case
    proof (cases "bs \<le> int (length (current_batch s))")
      case False
      with less.prems(1) show ?thesis by (simp add: drain_stop)
    next
      case True
      with less.prems(1) have d: "drain_full_batches sink bs (drain_turn sink bs s) = Some s'"
        by (simp add: drain_unfold)
      from drain_rel [OF d] obtain new where
        "delivered s' = delivered (drain_turn sink bs s) @ new"
        unfolding drained_def by blast
      then have e: "delivered s' = delivered s @ (slice_to bs (current_batch s),
          sink (length (delivered s)) (slice_to bs (current_batch s))) # new"
        by (simp add: drain_turn_props)
      from less.prems(2) have "replays sink' (delivered s @ (slice_to bs (current_batch s),
          sink (length (delivered s)) (slice_to bs (current_batch s))) # new)"
        by (simp only: e)
      from replays_entry [OF this]
      have "sink' (length (delivered s)) (slice_to bs (current_batch s))
          = sink (length (delivered s)) (slice_to bs (current_batch s))" .
      then have t: "drain_turn sink' bs s = drain_turn sink bs s"
        by (simp add: drain_turn_def send_batch_def)
      have "length (current_batch (drain_turn sink bs s)) < length (current_batch s)"
        using True pos by (simp add: drain_turn_props slice_from_length)
      from less.hyps [OF this d less.prems(2)] True show ?thesis
        by (simp add: drain_unfold t)
    qed
  qed
qed

lemma process_results_replay:
  "process_results sink bs rs s = Some s' \<Longrightarrow> replays sink' (delivered s')
     \<Longrightarrow> process_results sink' bs rs s = Some s'"
proof (induction rs arbitrary: s)
  case Nil
  then show ?case by simp
next
  case (Cons r rs)
  show ?case
  proof (cases r)
    case None
    with Cons show ?thesis by simp
  next
    case (Some result)
    with Cons.prems(1) obtain s1 where s1: "fold_result sink bs result s = Some s1"
      and r: "process_results sink bs rs s1 = Some s'"
      by (auto split: option.splits)
    from process_results_rel [OF r] obtain new where e: "delivered s' = delivered s1 @ new"
      unfolding folded_def by blast
    from Cons.prems(2) have "replays sink' (delivered s1 @ new)"
      by (simp only: e)
    then have rp: "replays sink' (delivered s1)"
      by (rule replays_prefix)
    from s1 have "drain_full_batches sink bs (absorb_result result s) = Some s1"
      by (simp add: fold_result_def)
    from drain_replay [OF this rp] have "fold_result sink' bs result s = Some s1"
      by (simp add: fold_result_def)
    with Cons.IH [OF r Cons.prems(2)] Some show ?thesis by simp
  qed
qed

lemma wave_step_extends:
  assumes "wave_step scan sink bs s = Some s'"
  shows "\<exists>xs ys. scanned s' = scanned s @ xs \<and> delivered s' = delivered s @ ys"
proof -
  from assms obtain W n where pr: "process_results sink bs (map scan W)
           (s\<lparr>wave_number := wave_number s + 1,
              directories_to_process := drop n (directories_to_process s),
              processed_directories := processed_directories s \<union> set W,
              scanned := scanned s @ W\<rparr>) = Some s'"
    by (rule wave_step_cases)
  from process_results_rel [OF pr] show ?thesis
    unfolding folded_def by auto
qed

lemma wave_step_replay:
  assumes st: "wave_step scan sink bs s = Some s'"
    and a: "agrees_with_history scan' sink' scan s'"
  shows "wave_step scan' sink' bs s = Some s'"
proof -
  from st obtain W n where
    tw: "take_wave max_parallel_dirs (directories_to_process s) (processed_directories s) []
           = (W, drop n (directories_to_process s), processed_directories s \<union> set W)"
    and pr: "process_results sink bs (map scan W)
           (s\<lparr>wave_number := wave_number s + 1,
              directories_to_process := drop n (directories_to_process s),
              processed_directories := processed_directories s \<union> set W,
              scanned := scanned s @ W\<rparr>) = Some s'"
    by (rule wave_step_cases)
  from process_results_rel [OF pr] have "scanned s' = scanned s @ W"
    unfolding folded_def by simp
  with a have w: "map scan' W = map scan W" and rp: "replays sink' (delivered s')"
    by (simp_all add: agrees_with_history_def)
  from process_results_replay [OF pr rp] show ?thesis
    by (simp add: wave_step_eq tw w)
qed

lemma agrees_with_history_earlier:
  assumes "agrees_with_history scan' sink' scan s'"
    and "scanned s' = scanned s @ xs" and "delivered s' = delivered s @ ys"
  shows "agrees_with_history scan' sink' scan s"
proof -
  from assms(1) have m: "map scan' (scanned s') = map scan (scanned s')"
    and r: "replays sink' (delivered s')"
    by (simp_all add: agrees_with_history_def)
  from m have "map scan' (scanned s) = map scan (scanned s)"
    unfolding assms(2) by simp
  moreover from r have "replays sink' (delivered s)"
    unfolding assms(3) by (rule replays_prefix)
  ultimately show ?thesis
    by (simp add: agrees_with_history_def)
qed

lemma run_waves_extends:
  "run_waves n scan sink bs s = Some s' \<Longrightarrow>
     \<exists>xs ys. scanned s' = scanned s @ xs \<and> delivered s' = delivered s @ ys"
proof (induction n arbitrary: s)
  case 0
  then show ?case by simp
next
  case (Suc n)
  show ?case
  proof (cases "directories_to_process s = []")
    case True
    with Suc.prems show ?thesis by simp
  next
    case False
    with Suc.prems obtain s1 where s1: "wave_step scan sink bs s = Some s1"
      and r: "run_waves n scan sink bs s1 = Some s'"
      by (auto split: option.splits)
    from wave_step_extends [OF s1] Suc.IH [OF r] show ?thesis
      by auto
  qed
qed

lemma run_waves_replay:
  "run_waves n scan sink bs s = Some s' \<Longrightarrow> agrees_with_history scan' sink' scan s'
     \<Longrightarrow> run_waves n scan' sink' bs s = Some s'"
proof (induction n arbitrary: s)
  case 0
  then show ?case by simp
next
  case (Suc n)
  show ?case
  proof (cases "directories_to_process s = []")
    case True
    with Suc.prems show ?thesis by simp
  next
    case False
    with Suc.prems(1) obtain s1 where s1: "wave_step scan sink bs s = Some s1"
      and r: "run_waves n scan sink bs s1 = Some s'"
      by (auto split: option.splits)
    from run_waves_extends [OF r] obtain xs ys where
      "scanned s' = scanned s1 @ xs" "delivered s' = delivered s1 @ ys" by blast
    from agrees_with_history_earlier [OF Suc.prems(2) this]
    have "wave_step scan' sink' bs s = Some s1"
      by (rule wave_step_replay [OF s1])
    with Suc.IH [OF r Suc.prems(2)] False show ?thesis by simp
  qed
qed

lemma run_waves_add:
  "run_waves (m + n) scan sink bs s
     = (case run_waves m scan sink bs s of None \<Rightarrow> None | Some s' \<Rightarrow> run_waves n scan sink bs s')"
proof (induction m arbitrary: s)
  case 0
  show ?case by simp
next
  case (Suc m)
  show ?case
  proof (cases "directories_to_process s = []")
    case True
    then have "run_waves n scan sink bs s = Some s"
      by (cases n) simp_all
    with True show ?thesis by simp
  next
    case False
    with Suc show ?thesis
      by (cases "wave_step scan sink bs s") simp_all
  qed
qed

lemma wave_loop_run_waves:
  assumes "wave_loop scan sink bs s = Some s'"
  shows "\<exists>n. run_waves n scan sink bs s = Some s'"
proof (rule wave_loop.raw_induct [where P = "\<lambda>scan sink bs s s'.
    \<exists>n. run_waves n scan sink bs s = Some s'", OF _ assms])
  fix loop :: "'a scan \<Rightarrow> 'a sink \<Rightarrow> int \<Rightarrow> 'a orch_state \<Rightarrow> 'a orch_state option"
    and scan sink bs s s'
  assume ih: "\<And>scan sink bs s s'. loop scan sink bs s = Some s' \<Longrightarrow>
      \<exists>n. run_waves n scan sink bs s = Some s'"
    and eq: "(if directories_to_process s = [] then Some s
        else case wave_step scan sink bs s of None \<Rightarrow> None
             | Some s' \<Rightarrow> loop scan sink bs s') = Some s'"
  show "\<exists>n. run_waves n scan sink bs s = Some s'"
  proof (cases "directories_to_process s = []")
    case True
    with eq have "run_waves 0 scan sink bs s = Some s'" by simp
    then show ?thesis ..
  next
    case False
    with eq obtain s1 where s1: "wave_step scan sink bs s = Some s1"
      and l: "loop scan sink bs s1 = Some s'"
      by (auto split: option.splits)
    from ih [OF l] obtain n where "run_waves n scan sink bs s1 = Some s'" ..
    with False s1 have "run_waves (Suc n) scan sink bs s = Some s'" by simp
    then show ?thesis ..
  qed
qed

lemma run_waves_wave_loop:
  "run_waves n scan sink bs s = Some s' \<Longrightarrow> directories_to_process s' = []
     \<Longrightarrow> wave_loop scan sink bs s = Some s'"
proof (induction n arbitrary: s)
  case 0
  then show ?case by (subst wave_loop.simps) simp
next
  case (Suc n)
  show ?case
  proof (cases "directories_to_process s = []")
    case True
    with Suc.prems show ?thesis by (subst wave_loop.simps) simp
  next
    case False
    with Suc.prems(1) obtain s1 where s1: "wave_step scan sink bs s = Some s1"
      and r: "run_waves n scan sink bs s1 = Some s'"
      by (auto split: option.splits)
    from Suc.IH [OF r Suc.prems(2)] False s1 show ?thesis
      by (subst wave_loop.simps) simp
  qed
qed

lemma wave_loop_replay:
  assumes "wave_loop scan sink bs s = Some s'" and "agrees_with_history scan' sink' scan s'"
  shows "wave_loop scan' sink' bs s = Some s'"
proof -
  from wave_loop_run_waves [OF assms(1)] obtain n where
    n: "run_waves n scan sink bs s = Some s'" ..
  have e: "directories_to_process s' = []"
  proof (rule wave_loop.raw_induct [where P = "\<lambda>scan sink bs s s'.
      directories_to_process s' = []", OF _ assms(1)])
    fix loop :: "'a scan \<Rightarrow> 'a sink \<Rightarrow> int \<Rightarrow> 'a orch_state \<Rightarrow> 'a orch_state option"
      and scan sink bs s s'
    assume ih: "\<And>scan sink bs s s'. loop scan sink bs s = Some s' \<Longrightarrow>
        directories_to_process s' = []"
      and eq: "(if directories_to_process s = [] then Some s
        else case wave_step scan sink bs s of None \<Rightarrow> None
             | Some s' \<Rightarrow> loop scan sink bs s') = Some s'"
    show "directories_to_process s' = []"
    proof (cases "directories_to_process s = []")
      case True
      with eq show ?thesis by simp
    next
      case False
      with eq ih show ?thesis by (auto split: option.splits)
    qed
  qed
  from run_waves_wave_loop [OF run_waves_replay [OF n assms(2)] e] show ?thesis .
qed

lemma share_replay:
  assumes run: "orchestrator_file_share utcnow scan sink input_data = Some (res, sf)"
    and a: "agrees_with_history scan' sink' scan sf"
  shows "orchestrator_file_share utcnow' scan' sink' input_data
     = Some (res\<lparr>completed_at := utcnow'\<rparr>, sf)"
proof -
  from run obtain s where wl: "wave_loop scan sink (batch_size input_data) initial_state = Some s"
    and f: "sf = flush_remainder sink s" and r: "res = build_result utcnow input_data sf"
    by (rule orchestrator_file_share_final)
  have d: "delivered sf = delivered s
      @ (if current_batch s = [] then []
         else [(current_batch s, sink (length (delivered s)) (current_batch s))])"
    and sc: "scanned sf = scanned s @ []"
    unfolding f by (simp_all add: flush_remainder_fields)
  from agrees_with_history_earlier [OF a sc d]
  have "wave_loop scan' sink' (batch_size input_data) initial_state = Some s"
    by (rule wave_loop_replay [OF wl])
  moreover have "flush_remainder sink' s = flush_remainder sink s"
  proof (cases "current_batch s = []")
    case True
    then show ?thesis by (simp add: flush_remainder_def)
  next
    case False
    from a have "replays sink' (delivered sf)" by (simp add: agrees_with_history_def)
    with d False have "replays sink' (delivered s
        @ (current_batch s, sink (length (delivered s)) (current_batch s)) # [])"
      by simp
    from replays_entry [OF this] False show ?thesis
      by (simp add: flush_remainder_def send_batch_def)
  qed
  ultimately show ?thesis
    by (simp add: orchestrator_file_share_def Let_def f r build_result_def)
qed

lemma main_clock_independent:
  "run_without_clock (orchestrator_main a1 b1 c1 list_shares scans sinks main_input)
     = run_without_clock (orchestrator_main a2 b2 c2 list_shares scans sinks main_input)"
proof -
  let ?f1 = "\<lambda>n. map_option fst (orchestrator_file_share (c1 n) (scans n) (sinks n)
      (share_input_of main_input n))"
  let ?f2 = "\<lambda>n. map_option fst (orchestrator_file_share (c2 n) (scans n) (sinks n)
      (share_input_of main_input n))"
  have th: "map_option (map without_clock) (those (map ?f1 names))
      = map_option (map without_clock) (those (map ?f2 names))" for names
    by (rule those_cong) (rule share_result_clock_independent)
  show ?thesis
  proof (cases "if file_share_names main_input = [] then list_shares
      else Inr (file_share_names main_input)")
    case (Inl err)
    then show ?thesis
      by (simp add: orchestrator_main_def run_without_clock_def Let_def)
  next
    case (Inr names)
    show ?thesis
    proof (cases "names = []")
      case True
      with Inr show ?thesis
        by (simp add: orchestrator_main_def run_without_clock_def Let_def
            result_without_clock_def status_without_clock_def)
    next
      case False
      show ?thesis
      proof (cases "those (map ?f1 names)")
        case None
        with th [of names] have "those (map ?f2 names) = None" by simp
        with None Inr False show ?thesis
          by (simp add: orchestrator_main_def run_without_clock_def Let_def)
      next
        case (Some rs1)
        with th [of names] obtain rs2 where rs2: "those (map ?f2 names) = Some rs2"
          and eq: "map without_clock rs1 = map without_clock rs2"
          by (cases "those (map ?f2 names)") auto
        from Some rs2 Inr False aggregate_clock_independent [OF eq, of b1 main_input names b2]
        show ?thesis
          by (simp add: orchestrator_main_def run_without_clock_def Let_def
              result_without_clock_def status_without_clock_def)
      qed
    qed
  qed
qed

text \<open>
  Claim C8. For every size \<open>S \<ge> 0\<close> and every age \<open>A \<ge> 0\<close> exactly one size interval and
  exactly one age interval of the threshold tables holds the value, the label the code returns
  is the label of that interval, and the lower ends are inclusive for sizes: 1024 bytes is in
  \<open>1 KB - 1 MB\<close>. (\<^verbatim>\<open>activity_scan_directory\<close> carries the same two functions, with the same
  thresholds and labels.)
\<close>

theorem bucket_totality_exclusivity:
  assumes "0 \<le> S" and "0 \<le> A"
  shows "(\<exists>!b. b \<in> set size_buckets \<and> in_size_bucket S b)
     \<and> (\<forall>b \<in> set size_buckets. in_size_bucket S b \<longrightarrow> snd (snd b) = get_size_bucket S)
     \<and> (\<exists>!b. b \<in> set age_buckets \<and> in_age_bucket A b)
     \<and> (\<forall>b \<in> set age_buckets. in_age_bucket A b \<longrightarrow> snd (snd b) = get_age_bucket A)
     \<and> get_size_bucket 1024 = ''1 KB - 1 MB''"
proof -
  obtain lo hi where s: "filter (in_size_bucket S) size_buckets = [(lo, hi, get_size_bucket S)]"
    using size_filter [OF assms(1)] by blast
  obtain lo' hi' where a: "filter (in_age_bucket A) age_buckets = [(lo', hi', get_age_bucket A)]"
    using age_filter [of A] by blast
  note fs = filter_single_ex1 [OF s] and fa = filter_single_ex1 [OF a]
  have s1: "\<exists>!b. b \<in> set size_buckets \<and> in_size_bucket S b"
    using fs by (rule conjunct1)
  have s2: "\<forall>b \<in> set size_buckets. in_size_bucket S b \<longrightarrow> snd (snd b) = get_size_bucket S"
  proof (intro ballI impI)
    fix b assume "b \<in> set size_buckets" "in_size_bucket S b"
    with fs have "b = (lo, hi, get_size_bucket S)" by blast
    then show "snd (snd b) = get_size_bucket S" by simp
  qed
  have a1: "\<exists>!b. b \<in> set age_buckets \<and> in_age_bucket A b"
    using fa by (rule conjunct1)
  have a2: "\<forall>b \<in> set age_buckets. in_age_bucket A b \<longrightarrow> snd (snd b) = get_age_bucket A"
  proof (intro ballI impI)
    fix b assume "b \<in> set age_buckets" "in_age_bucket A b"
    with fa have "b = (lo', hi', get_age_bucket A)" by blast
    then show "snd (snd b) = get_age_bucket A" by simp
  qed
  have k: "get_size_bucket 1024 = ''1 KB - 1 MB''"
    by (simp add: get_size_bucket_def KB_def MB_def)
  show ?thesis
    by (intro conjI) (rule s1, rule s2, rule a1, rule a2, rule k)
qed

theorem bucket_totality_exclusivity_witness:
  "(0::int) \<le> 1048576 \<and> (0::int) \<le> 30
     \<and> in_size_bucket 1048576 (1048576, Some 10485760, ''1 MB - 10 MB'')
     \<and> get_size_bucket 1048576 = ''1 MB - 10 MB''
     \<and> in_age_bucket 30 (Some 7, Some 30, ''8-30 days'')
     \<and> get_age_bucket 30 = ''8-30 days''"
proof -
  have m1: "(1048576, Some 10485760, ''1 MB - 10 MB'') \<in> set size_buckets"
    by (simp add: size_buckets_def)
  have m2: "(Some 7, Some 30, ''8-30 days'') \<in> set age_buckets"
    by (simp add: age_buckets_def)
  have h1: "(0::int) \<le> 1048576" and h2: "(0::int) \<le> 30" by simp_all
  have i1: "in_size_bucket 1048576 (1048576, Some 10485760, ''1 MB - 10 MB'')" by simp
  have i2: "in_age_bucket 30 (Some 7, Some 30, ''8-30 days'')" by simp
  note t = bucket_totality_exclusivity [OF h1 h2]
  from t have "\<forall>b \<in> set size_buckets. in_size_bucket 1048576 b
      \<longrightarrow> snd (snd b) = get_size_bucket 1048576"
    by (elim conjE)
  from bspec [OF this m1] i1 have r1: "get_size_bucket 1048576 = ''1 MB - 10 MB''"
    by simp
  from t have "\<forall>b \<in> set age_buckets. in_age_bucket 30 b \<longrightarrow> snd (snd b) = get_age_bucket 30"
    by (elim conjE)
  from bspec [OF this m2] i2 have r2: "get_age_bucket 30 = ''8-30 days''"
    by simp
  show ?thesis
    by (intro conjI) (rule h1, rule h2, rule i1, rule r1, rule i2, rule r2)
qed

text \<open>
  Claim C9. Categorisation does not depend on the case of the extension:
  \<open>get_file_category E = get_file_category (lower E)\<close>, in \<^verbatim>\<open>shared/models.py\<close> and in
  \<^verbatim>\<open>activity_scan_directory\<close> alike; and an extension whose lower-case form is in none of the
  ten tables is categorised \<open>Other\<close>.
\<close>

theorem categorization_idempotent:
  "get_file_category E = get_file_category (lower E)
     \<and> scan_get_file_category E = scan_get_file_category (lower E)
     \<and> ((\<forall>t \<in> set category_tables. \<not> List.member (fst t) (lower E))
          \<longrightarrow> get_file_category E = ''Other'' \<and> scan_get_file_category E = ''Other'')"
proof -
  have "get_file_category E = get_file_category (lower E)"
    by (simp add: get_file_category_def lower_idem)
  moreover have "(\<forall>t \<in> set category_tables. \<not> List.member (fst t) (lower E))
      \<longrightarrow> get_file_category E = ''Other''"
    by (simp add: get_file_category_def category_tables_def Let_def)
  ultimately show ?thesis
    by (simp add: scan_get_file_category_eq)
qed

theorem categorization_idempotent_witness:
  "get_file_category ''.XyZ'' = get_file_category ''.xyz''
     \<and> get_file_category ''.XyZ'' = ''Other''
     \<and> scan_get_file_category ''.XyZ'' = ''Other''"
proof -
  have l: "lower ''.XyZ'' = ''.xyz''" by code_simp
  have n: "\<forall>t \<in> set category_tables. \<not> List.member (fst t) ''.xyz''" by code_simp
  note t = categorization_idempotent [of "''.XyZ''", unfolded l]
  from t have a: "get_file_category ''.XyZ'' = get_file_category ''.xyz''"
    by (rule conjunct1)
  from t n have b: "get_file_category ''.XyZ'' = ''Other'' \<and> scan_get_file_category ''.XyZ'' = ''Other''"
    by blast
  from a b show ?thesis by blast
qed

text \<open>
  Claim C10. The tables overlap and the first table that holds the extension decides, in the
  order Documents, Images, Videos, Audio, Archives, Code, Executables, Databases, Logs,
  Temporary: \<open>.bak\<close> is in the database table and in the temporary table, and it (in any
  case) is categorised \<open>Databases\<close>, so never \<open>Temporary\<close>.
\<close>

theorem category_first_table_wins:
  "get_file_category E = first_match category_tables (lower E)
     \<and> scan_get_file_category E = first_match category_tables (lower E)
     \<and> map snd category_tables = [''Documents'', ''Images'', ''Videos'', ''Audio'', ''Archives'',
          ''Code'', ''Executables'', ''Databases'', ''Logs'', ''Temporary'']
     \<and> List.member database_exts ''.bak'' \<and> List.member temp_exts ''.bak''
     \<and> (lower E = ''.bak'' \<longrightarrow>
          get_file_category E = ''Databases'' \<and> scan_get_file_category E = ''Databases'')"
proof -
  have "List.member database_exts ''.bak''" "List.member temp_exts ''.bak''"
    by code_simp+
  moreover have "first_match category_tables ''.bak'' = ''Databases''"
    by code_simp
  moreover have "map snd category_tables = [''Documents'', ''Images'', ''Videos'', ''Audio'',
      ''Archives'', ''Code'', ''Executables'', ''Databases'', ''Logs'', ''Temporary'']"
    by (simp add: category_tables_def)
  ultimately show ?thesis
    by (simp add: scan_get_file_category_eq get_file_category_first_match)
qed

theorem category_first_table_wins_witness:
  "get_file_category ''.BAK'' = ''Databases'' \<and> scan_get_file_category ''.BAK'' = ''Databases''
     \<and> get_file_category ''.BAK'' \<noteq> ''Temporary''"
proof -
  have l: "lower ''.BAK'' = ''.bak''" by code_simp
  note t = category_first_table_wins [of "''.BAK''", unfolded l]
  from t have b: "get_file_category ''.BAK'' = ''Databases'' \<and> scan_get_file_category ''.BAK'' = ''Databases''"
    by blast
  have "''Databases'' \<noteq> ''Temporary''" by simp
  with b show ?thesis by simp
qed




text \<open>
  Claim C6. For every file whose properties can be read a record is produced, and a hash is
  attempted exactly when hashing is enabled and the size is at most the smaller of the
  configured limit and the fixed ceiling of 10 MiB. When the attempt fails the record carries
  the hash \<open>ERROR\<close> and is still appended to the result; when hashing is disabled nothing is
  attempted and the hash is \<open>SKIPPED\<close>.
\<close>

theorem hash_policy:
  assumes "file_properties it = Inr p"
  shows "\<exists>r attempted. process_file e i it = (Inr r, attempted)
     \<and> (attempted \<longleftrightarrow> \<not> skip_hash_computation i
          \<and> item_size it \<le> min (max_file_size_for_hash_mb i * 1024 * 1024) (10 * 1024 * 1024))
     \<and> (attempted \<and> isl (download_file it) \<longrightarrow> FileHash r = ''ERROR'')
     \<and> (attempted \<and> \<not> isl (download_file it) \<longrightarrow>
          FileHash r = upper (md5_hexdigest e (projr (download_file it))))
     \<and> (skip_hash_computation i \<longrightarrow> \<not> attempted \<and> FileHash r = ''SKIPPED'')
     \<and> (\<not> is_directory it \<and> \<not> is_file_excluded e (item_name it) (exclude_patterns i) \<longrightarrow>
          file_records (scan_item e i it res) = file_records res @ [r])"
  using assms
  by (cases "download_file it")
    (auto simp: process_file_def compute_file_hash_def scan_item_def Let_def split: prod.splits)

theorem hash_policy_witness:
  "file_properties unreadable_file = Inr \<lparr> last_modified = None, creation_time = None \<rparr>
     \<and> \<not> skip_hash_computation task0
     \<and> isl (download_file unreadable_file)
     \<and> map FileHash (file_records
          (scan_directory_main env0 task0 (Listing [unreadable_file] None))) = [''ERROR'']"
proof -
  have h: "file_properties unreadable_file = Inr \<lparr> last_modified = None, creation_time = None \<rparr>"
    by (simp add: unreadable_file_def)
  from hash_policy [OF h, of env0 task0
      "\<lparr> result_directory_path = '''', files_processed = 0, bytes_processed = 0,
         subdirectories = [], file_records = [], errors = [] \<rparr>"]
  obtain r attempted where
    a: "attempted \<longleftrightarrow> \<not> skip_hash_computation task0
          \<and> item_size unreadable_file
               \<le> min (max_file_size_for_hash_mb task0 * 1024 * 1024) (10 * 1024 * 1024)"
    and b: "attempted \<and> isl (download_file unreadable_file) \<longrightarrow> FileHash r = ''ERROR''"
    and c: "\<not> is_directory unreadable_file
          \<and> \<not> is_file_excluded env0 (item_name unreadable_file) (exclude_patterns task0) \<longrightarrow>
          file_records (scan_item env0 task0 unreadable_file
            \<lparr> result_directory_path = '''', files_processed = 0, bytes_processed = 0,
              subdirectories = [], file_records = [], errors = [] \<rparr>) = [] @ [r]"
    by auto
  have s: "\<not> skip_hash_computation task0" "isl (download_file unreadable_file)"
    "item_size unreadable_file
       \<le> min (max_file_size_for_hash_mb task0 * 1024 * 1024) (10 * 1024 * 1024)"
    "\<not> is_directory unreadable_file"
    "\<not> is_file_excluded env0 (item_name unreadable_file) (exclude_patterns task0)"
    by (simp_all add: task0_def unreadable_file_def env0_def)
  from a b s have "FileHash r = ''ERROR''" by blast
  moreover from c s have "file_records (scan_item env0 task0 unreadable_file
            \<lparr> result_directory_path = '''', files_processed = 0, bytes_processed = 0,
              subdirectories = [], file_records = [], errors = [] \<rparr>) = [r]" by simp
  ultimately show ?thesis
    using h s by (simp add: scan_directory_main_def task0_def)
qed

text \<open>
  Claim C2. For a positive batch size \<open>B\<close>: in every state the loop reaches, every batch handed
  to the delivery activity so far has length exactly \<open>B\<close>. When the orchestrator returns, the
  loop has ended in a state whose pending batch holds \<open>N mod B\<close> records, \<open>N\<close> being the number
  of records in the scan results; the final flush hands over that batch, and nothing when
  \<open>N mod B = 0\<close>; and all batches together are the records of the scan results, in order.
\<close>

theorem batch_exactness:
  assumes "0 < batch_size input_data"
  shows "(\<forall>s. reachable scan sink (batch_size input_data) s \<longrightarrow>
            (\<forall>b \<in> set (delivered s). length (fst b) = nat (batch_size input_data)))
     \<and> (\<forall>res sf. orchestrator_file_share utcnow scan sink input_data = Some (res, sf) \<longrightarrow>
          (\<exists>s. wave_loop scan sink (batch_size input_data) initial_state = Some s
             \<and> sf = flush_remainder sink s
             \<and> (\<forall>b \<in> set (delivered s). length (fst b) = nat (batch_size input_data))
             \<and> length (current_batch s) = total_records scan s mod nat (batch_size input_data)
             \<and> map fst (delivered sf) = map fst (delivered s)
                  @ (if total_records scan s mod nat (batch_size input_data) = 0 then []
                     else [current_batch s])
             \<and> concat (map fst (delivered sf))
                  = concat (map (\<lambda>d. result_records (scan d)) (scanned sf))))"
proof (intro conjI allI impI)
  fix s assume "reachable scan sink (batch_size input_data) s"
  from reachable_wave_inv [OF this] assms
  show "\<forall>b \<in> set (delivered s). length (fst b) = nat (batch_size input_data)"
    by (simp add: wave_inv_def)
next
  fix res sf
  assume "orchestrator_file_share utcnow scan sink input_data = Some (res, sf)"
  then obtain s where s: "wave_loop scan sink (batch_size input_data) initial_state = Some s"
    and f: "sf = flush_remainder sink s"
    and inv: "wave_inv scan sink (batch_size input_data) s"
    by (rule orchestrator_file_share_final)
  let ?B = "nat (batch_size input_data)"
  from inv assms have full: "\<forall>b \<in> set (delivered s). length (fst b) = ?B"
    and short: "length (current_batch s) < ?B"
    and rc: "received s = concat (map (\<lambda>d. result_records (scan d)) (scanned s))"
    by (simp_all add: wave_inv_def)
  from full have "length (concat (map fst (delivered s))) = ?B * length (map fst (delivered s))"
    by (intro concat_length_uniform) simp
  moreover have "total_records scan s = length (received s)"
    by (simp only: total_records_def rc)
  ultimately have "total_records scan s = ?B * length (delivered s) + length (current_batch s)"
    by (simp add: received_def)
  with short have m: "length (current_batch s) = total_records scan s mod ?B"
    by simp
  then have e: "current_batch s = [] \<longleftrightarrow> total_records scan s mod ?B = 0"
    by auto
  have d: "map fst (delivered sf) = map fst (delivered s)
      @ (if total_records scan s mod ?B = 0 then [] else [current_batch s])"
    unfolding f using e by (simp add: flush_remainder_fields)
  have c: "concat (map fst (delivered sf))
      = concat (map (\<lambda>d. result_records (scan d)) (scanned sf))"
    unfolding f by (simp only: flush_remainder_fields(1) flush_remainder_fields(9) rc)
  from s f full m d c
  show "\<exists>s. wave_loop scan sink (batch_size input_data) initial_state = Some s
             \<and> sf = flush_remainder sink s
             \<and> (\<forall>b \<in> set (delivered s). length (fst b) = nat (batch_size input_data))
             \<and> length (current_batch s) = total_records scan s mod nat (batch_size input_data)
             \<and> map fst (delivered sf) = map fst (delivered s)
                  @ (if total_records scan s mod nat (batch_size input_data) = 0 then []
                     else [current_batch s])
             \<and> concat (map fst (delivered sf))
                  = concat (map (\<lambda>d. result_records (scan d)) (scanned sf))"
    by blast
qed

theorem batch_exactness_witness:
  "0 < batch_size share0
     \<and> orchestrator_file_share ''t'' scan0 sink_accept share0 \<noteq> None
     \<and> map fst (delivered (snd (the (orchestrator_file_share ''t'' scan0 sink_accept share0))))
         = [[1, 2], [3, 4], [5]]
     \<and> length (current_batch (the (wave_loop scan0 sink_accept (batch_size share0) initial_state)))
         = 5 mod 2"
proof -
  have pos: "0 < batch_size share0" by (simp add: share0_def)
  have ne: "orchestrator_file_share ''t'' scan0 sink_accept share0 \<noteq> None"
    by (simp add: run_eval scan0_def sink_accept_def share0_def)
  then have run: "orchestrator_file_share ''t'' scan0 sink_accept share0
      = Some (fst (the (orchestrator_file_share ''t'' scan0 sink_accept share0)),
              snd (the (orchestrator_file_share ''t'' scan0 sink_accept share0)))"
    by auto
  from batch_exactness [OF pos, of scan0 sink_accept "''t''", THEN conjunct2, rule_format, OF run]
  obtain s where s: "wave_loop scan0 sink_accept (batch_size share0) initial_state = Some s"
    and m: "length (current_batch s) = total_records scan0 s mod nat (batch_size share0)"
    by blast
  have n: "total_records scan0 (the (wave_loop scan0 sink_accept (batch_size share0) initial_state))
      = 5"
    by (simp add: run_eval scan0_def sink_accept_def share0_def total_records_def
        result_records_def)
  from s m n have k: "length (current_batch
      (the (wave_loop scan0 sink_accept (batch_size share0) initial_state))) = 5 mod 2"
    by (simp add: share0_def)
  have d: "map fst (delivered (snd (the (orchestrator_file_share ''t'' scan0 sink_accept share0))))
      = [[1, 2], [3, 4], [5]]"
    by (simp add: run_eval scan0_def sink_accept_def share0_def)
  from pos ne d k show ?thesis by blast
qed




text \<open>
  Claim C4, as stated, at an explicit input: a failed delivery is reflected in the error
  counters of the final report. With the sink that rejects every batch, the three batches of
  the share are all handed over once and all rejected, and the share reports no error and an
  error count of 0, and so does the report of the run.
\<close>

theorem failed_delivery_not_in_error_count:
  "map (\<lambda>entry. (fst entry, accepted (snd entry)))
       (delivered (snd (the (orchestrator_file_share ''t'' scan0 sink_reject share0))))
     = [([1, 2], False), ([3, 4], False), ([5], False)]
   \<and> error_count (fst (the (orchestrator_file_share ''t'' scan0 sink_reject share0))) = 0
   \<and> share_errors (fst (the (orchestrator_file_share ''t'' scan0 sink_reject share0))) = []
   \<and> batches_sent (fst (the (orchestrator_file_share ''t'' scan0 sink_reject share0))) = 0
   \<and> map_option (map_sum id (\<lambda>(r, log). case r of Completed report \<Rightarrow> total_errors report
                                               | No_file_shares_found e \<Rightarrow> 1))
        (orchestrator_main ''t0'' ''t1'' (\<lambda>n. ''t'') (Inr []) (\<lambda>n. scan0) (\<lambda>n. sink_reject) main0)
     = Some (Inr 0)"
  by (simp add: run_eval main_eval scan0_def sink_reject_def share0_def main0_def)

text \<open>
  Claim C4, amended. A batch is handed to the delivery activity once, whatever the result of
  the call: the batches of the delivery log, in order, are the records of the scan results, and
  the log holds the result of each call. A failed delivery is not counted as an error: the
  share's error count is the number of error strings in the scan results and its error list
  their first hundred, and the report of the run adds up, over the shares, the lengths of those
  capped error lists. The only trace of a failed delivery is in the counters of accepted
  deliveries: with another sink the run returns or fails to return alike, and returns the same
  share result up to \<open>batches_sent\<close>, the same batches and scans, and the same report and
  custom statuses up to \<open>total_batches_sent\<close> and the \<open>batches_sent\<close> of the shares.
\<close>

theorem delivery_failure_accounting:
  "(orchestrator_file_share utcnow scan sink input_data = Some (res, sf) \<longrightarrow>
      error_count res = length (concat (map (\<lambda>d. result_errors (scan d)) (scanned sf)))
      \<and> share_errors res = take 100 (concat (map (\<lambda>d. result_errors (scan d)) (scanned sf)))
      \<and> batches_sent res = length (filter (\<lambda>entry. accepted (snd entry)) (delivered sf))
      \<and> map snd (delivered sf) = map (\<lambda>(k, b). sink k b) (enumerate 0 (map fst (delivered sf)))
      \<and> concat (map fst (delivered sf))
           = concat (map (\<lambda>d. result_records (scan d)) (scanned sf)))
   \<and> (orchestrator_main utcnow_start utcnow_end share_utcnow list_shares scans sinks main_input
        = Some (Inr (Completed report, log)) \<longrightarrow>
      total_errors report = sum_list (map (\<lambda>r. length (share_errors r)) (share_results report))
      \<and> report_total_batches_sent report = sum_list (map batches_sent (share_results report))
      \<and> (\<exists>names. share_results report
            = map (\<lambda>n. fst (the (orchestrator_file_share (share_utcnow n) (scans n) (sinks n)
                                   (share_input_of main_input n)))) names))
   \<and> map_option (\<lambda>(r, s). (without_batches r, map fst (delivered s), scanned s))
        (orchestrator_file_share utcnow scan sink input_data)
      = map_option (\<lambda>(r, s). (without_batches r, map fst (delivered s), scanned s))
        (orchestrator_file_share utcnow scan sink' input_data)
   \<and> run_without_batches
        (orchestrator_main utcnow_start utcnow_end share_utcnow list_shares scans sinks main_input)
      = run_without_batches
        (orchestrator_main utcnow_start utcnow_end share_utcnow list_shares scans sinks'
           main_input)"
proof (intro conjI impI)
  assume a: "orchestrator_file_share utcnow scan sink input_data = Some (res, sf)"
  from a obtain s where f: "sf = flush_remainder sink s"
    and r: "res = build_result utcnow input_data sf"
    and inv: "wave_inv scan sink (batch_size input_data) s"
    by (rule orchestrator_file_share_final)
  from inv have e: "all_errors s = concat (map (\<lambda>d. result_errors (scan d)) (scanned s))"
    and rc: "received s = concat (map (\<lambda>d. result_records (scan d)) (scanned s))"
    and lg: "log_ok sink s"
    by (simp_all add: wave_inv_def)
  note lf = log_ok_flush_remainder [OF lg, folded f, unfolded log_ok_def]
  show "error_count res = length (concat (map (\<lambda>d. result_errors (scan d)) (scanned sf)))"
    unfolding r f by (simp add: build_result_def flush_remainder_fields e)
  show "share_errors res = take 100 (concat (map (\<lambda>d. result_errors (scan d)) (scanned sf)))"
    unfolding r f by (simp add: build_result_def flush_remainder_fields e)
  show "batches_sent res = length (filter (\<lambda>entry. accepted (snd entry)) (delivered sf))"
    using lf unfolding r by (simp add: build_result_def)
  show "map snd (delivered sf) = map (\<lambda>(k, b). sink k b) (enumerate 0 (map fst (delivered sf)))"
    using lf by (rule conjunct1)
  show "concat (map fst (delivered sf))
      = concat (map (\<lambda>d. result_records (scan d)) (scanned sf))"
    unfolding f by (simp only: flush_remainder_fields(1) flush_remainder_fields(9) rc)
next
  assume m: "orchestrator_main utcnow_start utcnow_end share_utcnow list_shares scans sinks
      main_input = Some (Inr (Completed report, log))"
  let ?f = "\<lambda>n. map_option fst (orchestrator_file_share (share_utcnow n) (scans n) (sinks n)
      (share_input_of main_input n))"
  from m obtain names results where t: "those (map ?f names) = Some results"
    and rep: "report = aggregate utcnow_end main_input names results"
    by (auto simp: orchestrator_main_def Let_def split: sum.splits if_splits option.splits)
  from those_map_Some [OF t] have "results = map (\<lambda>n. the (?f n)) names" .
  moreover have "the (?f n) = fst (the (orchestrator_file_share (share_utcnow n) (scans n)
      (sinks n) (share_input_of main_input n)))"
    if "n \<in> set names" for n
  proof -
    from t that have "?f n \<noteq> None"
      by (induction names arbitrary: results) (auto split: option.splits)
    then show ?thesis by (auto simp: option.map_sel)
  qed
  ultimately have "share_results report
      = map (\<lambda>n. fst (the (orchestrator_file_share (share_utcnow n) (scans n) (sinks n)
                                   (share_input_of main_input n)))) names"
    unfolding rep by (simp add: aggregate_def)
  then show "\<exists>names. share_results report
            = map (\<lambda>n. fst (the (orchestrator_file_share (share_utcnow n) (scans n) (sinks n)
                                   (share_input_of main_input n)))) names"
    by blast
  show "total_errors report = sum_list (map (\<lambda>r. length (share_errors r)) (share_results report))"
    unfolding rep by (simp add: aggregate_def)
  show "report_total_batches_sent report = sum_list (map batches_sent (share_results report))"
    unfolding rep by (simp add: aggregate_def)
next
  from share_sink_independent [of utcnow scan sink input_data sink']
  show "map_option (\<lambda>(r, s). (without_batches r, map fst (delivered s), scanned s))
        (orchestrator_file_share utcnow scan sink input_data)
      = map_option (\<lambda>(r, s). (without_batches r, map fst (delivered s), scanned s))
        (orchestrator_file_share utcnow scan sink' input_data)"
    by (cases "orchestrator_file_share utcnow scan sink input_data";
        cases "orchestrator_file_share utcnow scan sink' input_data")
      (auto simp: same_but_sink_def)
next
  show "run_without_batches
        (orchestrator_main utcnow_start utcnow_end share_utcnow list_shares scans sinks main_input)
      = run_without_batches
        (orchestrator_main utcnow_start utcnow_end share_utcnow list_shares scans sinks'
           main_input)"
    by (rule main_sink_independent)
qed

theorem delivery_failure_accounting_witness:
  "orchestrator_file_share ''t'' scan_err sink_reject share0 \<noteq> None
     \<and> scanned (snd (the (orchestrator_file_share ''t'' scan_err sink_reject share0))) = ['''']
     \<and> error_count (fst (the (orchestrator_file_share ''t'' scan_err sink_reject share0))) = 1
     \<and> batches_sent (fst (the (orchestrator_file_share ''t'' scan_err sink_reject share0))) = 0
     \<and> concat (map fst
          (delivered (snd (the (orchestrator_file_share ''t'' scan_err sink_reject share0))))) = [7]"
proof -
  have ne: "orchestrator_file_share ''t'' scan_err sink_reject share0 \<noteq> None"
    by (simp add: run_eval scan_err_def sink_reject_def share0_def)
  then have run: "orchestrator_file_share ''t'' scan_err sink_reject share0
      = Some (fst (the (orchestrator_file_share ''t'' scan_err sink_reject share0)),
              snd (the (orchestrator_file_share ''t'' scan_err sink_reject share0)))"
    by auto
  have sc: "scanned (snd (the (orchestrator_file_share ''t'' scan_err sink_reject share0))) = ['''']"
    by (simp add: run_eval scan_err_def sink_reject_def share0_def)
  have dl: "map (\<lambda>entry. accepted (snd entry))
      (delivered (snd (the (orchestrator_file_share ''t'' scan_err sink_reject share0)))) = [False]"
    by (simp add: run_eval scan_err_def sink_reject_def share0_def)
  note t = delivery_failure_accounting [of "''t''" scan_err sink_reject share0
      "fst (the (orchestrator_file_share ''t'' scan_err sink_reject share0))"
      "snd (the (orchestrator_file_share ''t'' scan_err sink_reject share0))",
      THEN conjunct1, rule_format, OF run, unfolded sc]
  from t have 1: "error_count (fst (the (orchestrator_file_share ''t'' scan_err sink_reject share0)))
      = 1"
    by (simp add: scan_err_def result_errors_def)
  from t have "batches_sent (fst (the (orchestrator_file_share ''t'' scan_err sink_reject share0)))
      = length (filter id (map (\<lambda>entry. accepted (snd entry))
          (delivered (snd (the (orchestrator_file_share ''t'' scan_err sink_reject share0))))))"
    by (simp add: filter_map comp_def)
  then have 2: "batches_sent (fst (the (orchestrator_file_share ''t'' scan_err sink_reject share0)))
      = 0"
    unfolding dl by simp
  from t have 3: "concat (map fst
      (delivered (snd (the (orchestrator_file_share ''t'' scan_err sink_reject share0))))) = [7]"
    by (simp add: scan_err_def result_records_def)
  from ne sc 1 2 3 show ?thesis by blast
qed

text \<open>
  Claim C7, as stated, at an explicit input: two executions over the same recorded activity
  results agree, because no wall-clock time is read inside the orchestrator. The
  sub-orchestrator reads the clock when it builds its result, so an execution and its replay
  over the same recorded results, a few seconds apart, return different values.
\<close>

theorem replay_result_differs:
  "orchestrator_file_share ''2024-05-01T10:00:00'' scan0 sink_accept share0
     \<noteq> orchestrator_file_share ''2024-05-01T10:00:07'' scan0 sink_accept share0"
proof
  assume eq: "orchestrator_file_share (''2024-05-01T10:00:00'') scan0 sink_accept share0
     = orchestrator_file_share (''2024-05-01T10:00:07'') scan0 sink_accept share0"
  have a: "map_option (\<lambda>r. completed_at (fst r))
      (orchestrator_file_share (''2024-05-01T10:00:00'') scan0 sink_accept share0)
      = Some (''2024-05-01T10:00:00'')"
    by (simp add: run_eval scan0_def sink_accept_def share0_def)
  have b: "map_option (\<lambda>r. completed_at (fst r))
      (orchestrator_file_share (''2024-05-01T10:00:07'') scan0 sink_accept share0)
      = Some (''2024-05-01T10:00:07'')"
    by (simp add: run_eval scan0_def sink_accept_def share0_def)
  from a b have "Some (''2024-05-01T10:00:00'') = Some (''2024-05-01T10:00:07'')"
    by (simp only: eq)
  then show False by simp
qed


text \<open>
  Claim C7, amended. An execution of the orchestrator over recorded activity results
  reproduces the run that recorded them, except for the time stamps. The state after \<open>n\<close> turns
  of the wave loop (frontier, processed set, counters, activity calls) is the same for any scan
  results and any sink that agree with the history of that state, that is, with the scan
  results of the directories scanned and with the logged results of the deliveries made; the
  loop, when it ends, ends in the state reached after some number of turns, and \<open>m\<close> turns
  followed by \<open>n\<close> more are \<open>m + n\<close> turns. An execution over any results that agree with the
  history of a completed run of a share, reading another clock value, ends in the same final
  state and returns the same result except \<open>completed_at\<close>. Two executions that read
  different clocks differ at most in \<open>completed_at\<close> (share result and report of the run) and
  in the \<open>startTime\<close> of the first custom status: these time stamps are read from the wall
  clock inside the orchestrator functions by each execution.
\<close>

theorem clock_only_in_time_stamps:
  "map_option (\<lambda>(r, s). (without_clock r, s)) (orchestrator_file_share t1 scan sink input_data)
     = map_option (\<lambda>(r, s). (without_clock r, s)) (orchestrator_file_share t2 scan sink input_data)
   \<and> run_without_clock
        (orchestrator_main a1 b1 c1 list_shares scans sinks main_input)
     = run_without_clock
        (orchestrator_main a2 b2 c2 list_shares scans sinks main_input)
   \<and> (orchestrator_file_share t1 scan sink input_data = Some (res, sf) \<longrightarrow>
        agrees_with_history scan' sink' scan sf \<longrightarrow>
        orchestrator_file_share t2 scan' sink' input_data
          = Some (res\<lparr>completed_at := t2\<rparr>, sf))
   \<and> (run_waves n scan sink bs initial_state = Some s \<longrightarrow>
        agrees_with_history scan' sink' scan s \<longrightarrow>
        run_waves n scan' sink' bs initial_state = Some s)
   \<and> (wave_loop scan sink bs initial_state = Some s \<longrightarrow>
        (\<exists>k. run_waves k scan sink bs initial_state = Some s))
   \<and> run_waves (m + n) scan sink bs s0
     = (case run_waves m scan sink bs s0 of
          None \<Rightarrow> None
        | Some s1 \<Rightarrow> run_waves n scan sink bs s1)"
proof (intro conjI impI)
  show "map_option (\<lambda>(r, s). (without_clock r, s))
        (orchestrator_file_share t1 scan sink input_data)
     = map_option (\<lambda>(r, s). (without_clock r, s))
        (orchestrator_file_share t2 scan sink input_data)"
    by (rule share_clock_independent)
  show "run_without_clock (orchestrator_main a1 b1 c1 list_shares scans sinks main_input)
     = run_without_clock (orchestrator_main a2 b2 c2 list_shares scans sinks main_input)"
    by (rule main_clock_independent)
  show "run_waves (m + n) scan sink bs s0
     = (case run_waves m scan sink bs s0 of
          None \<Rightarrow> None
        | Some s1 \<Rightarrow> run_waves n scan sink bs s1)"
    by (rule run_waves_add)
next
  assume "orchestrator_file_share t1 scan sink input_data = Some (res, sf)"
    and "agrees_with_history scan' sink' scan sf"
  then show "orchestrator_file_share t2 scan' sink' input_data
      = Some (res\<lparr>completed_at := t2\<rparr>, sf)"
    by (rule share_replay)
next
  assume "run_waves n scan sink bs initial_state = Some s"
    and "agrees_with_history scan' sink' scan s"
  then show "run_waves n scan' sink' bs initial_state = Some s"
    by (rule run_waves_replay)
next
  assume "wave_loop scan sink bs initial_state = Some s"
  then show "\<exists>k. run_waves k scan sink bs initial_state = Some s"
    by (rule wave_loop_run_waves)
qed

theorem clock_only_in_time_stamps_witness:
  "orchestrator_file_share ''2024-05-01T10:00:00'' scan0 sink_accept share0 \<noteq> None
     \<and> scanned (snd (the (orchestrator_file_share ''2024-05-01T10:00:00'' scan0 sink_accept
          share0))) = ['''', ''sub'']
     \<and> agrees_with_history scan0_later sink_later scan0
          (snd (the (orchestrator_file_share ''2024-05-01T10:00:00'' scan0 sink_accept share0)))
     \<and> orchestrator_file_share ''2024-05-01T10:00:07'' scan0_later sink_later share0
         = Some ((fst (the (orchestrator_file_share ''2024-05-01T10:00:00'' scan0 sink_accept
                     share0)))\<lparr>completed_at := ''2024-05-01T10:00:07''\<rparr>,
                 snd (the (orchestrator_file_share ''2024-05-01T10:00:00'' scan0 sink_accept
                     share0)))"
proof -
  let ?run = "orchestrator_file_share ''2024-05-01T10:00:00'' scan0 sink_accept share0"
  have ne: "?run \<noteq> None"
    by (simp add: run_eval scan0_def sink_accept_def share0_def)
  then have run: "?run = Some (fst (the ?run), snd (the ?run))"
    by auto
  have sc: "scanned (snd (the ?run)) = ['''', ''sub'']"
    by (simp add: run_eval scan0_def sink_accept_def share0_def)
  have dl: "delivered (snd (the ?run))
      = [([1, 2], sink_accept 0 [1, 2]), ([3, 4], sink_accept 1 [3, 4]), ([5], sink_accept 2 [5])]"
    by (simp add: run_eval scan0_def sink_accept_def share0_def)
  have ag: "agrees_with_history scan0_later sink_later scan0 (snd (the ?run))"
    unfolding agrees_with_history_def replays_def sc dl
    by (simp add: scan0_later_def sink_later_def sink_accept_def enumerate_simps)
  note t = clock_only_in_time_stamps [THEN conjunct2, THEN conjunct2, THEN conjunct1,
      rule_format, OF run ag]
  from ne sc ag t show ?thesis
    by (intro conjI)
qed

text \<open>
  Claim C1, as stated, at an explicit input: for every finite tree the wave loop terminates.
  \<open>scan0\<close> presents the tree \<open>tree0\<close> of two directories; with a batch size of 0 the loop
  \<^verbatim>\<open>while len(current_batch) >= batch_size\<close> never ends, so the orchestrator does not return.
\<close>

theorem wave_loop_diverges_at_batch_size_zero:
  "root_path tree0 = '''' \<and> distinct (paths tree0) \<and> presents scan0 tree0
     \<and> orchestrator_file_share ''t'' scan0 sink_accept (share0\<lparr>batch_size := 0\<rparr>) = None"
proof -
  have "presents scan0 tree0"
    by (simp add: presents_def tree0_def scan0_def result_subdirs_def)
  moreover have "orchestrator_file_share ''t'' scan0 sink_accept (share0\<lparr>batch_size := 0\<rparr>) = None"
    by (simp add: orchestrator_file_share_def wave_loop.simps wave_step_def fold_result_def
        drain_nonpositive initial_state_def max_parallel_dirs_def Let_def scan0_def share0_def)
  ultimately show ?thesis
    by (simp add: tree0_def)
qed

text \<open>
  Claim C1, amended. Let the scan results present a finite directory tree whose root is the
  share's root and whose directories have distinct paths, and let the batch size be positive.
  Then the orchestrator returns with an empty queue; the directories handed to the scan
  activity are the directories of the tree, each exactly once; \<open>directories_processed\<close> is the
  number of directories of the tree; and when no level of the tree holds more than
  \<open>max_parallel_dirs\<close> (10) directories the number of waves is at most the depth of the tree,
  counted in levels (it is equal to it).
\<close>

theorem wave_loop_visits_tree_once:
  assumes "root_path t = ''''" and "distinct (paths t)" and "presents scan t"
    and "0 < batch_size input_data"
  shows "\<exists>res sf. orchestrator_file_share utcnow scan sink input_data = Some (res, sf)
     \<and> directories_to_process sf = []
     \<and> mset (scanned sf) = mset (paths t)
     \<and> directories_processed res = card (set (paths t))
     \<and> (width t \<le> max_parallel_dirs \<longrightarrow>
          waves_completed res \<le> depth t \<and> waves_completed res = depth t)"
proof -
  let ?bs = "batch_size input_data"
  from tree_loop [OF assms(3,2,1,4) bfs_inv_initial, of sink] obtain s where
    wl: "wave_loop scan sink ?bs initial_state = Some s" and inv: "bfs_inv scan t s"
    and e: "directories_to_process s = []"
    by blast
  let ?sf = "flush_remainder sink s"
  let ?res = "build_result utcnow input_data ?sf"
  have run: "orchestrator_file_share utcnow scan sink input_data = Some (?res, ?sf)"
    by (simp add: orchestrator_file_share_def wl Let_def)
  from tree_final [OF assms(3,1) inv e] have st: "set (scanned s) = set (paths t)" .
  from inv have ds: "distinct (scanned s)" and pp: "processed_directories s = set (scanned s)"
    by (simp_all add: bfs_inv_def)
  from st ds assms(2) have ms: "mset (scanned ?sf) = mset (paths t)"
    by (simp add: flush_remainder_fields set_eq_iff_mset_eq_distinct)
  have dp: "directories_processed ?res = card (set (paths t))"
    by (simp add: build_result_def flush_remainder_fields pp st)
  have wv: "waves_completed ?res = depth t" if "width t \<le> max_parallel_dirs"
  proof -
    have "directories_to_process (initial_state :: 'a orch_state) = level 0 t"
      by (simp add: initial_state_def level_0 assms(1))
    moreover have "wave_number (initial_state :: 'a orch_state) = 0"
      by (simp add: initial_state_def)
    ultimately have "wave_number s = depth t"
      using tree_waves [OF assms(3,2,1,4) that bfs_inv_initial _ _ _ wl] by simp
    then show ?thesis
      by (simp add: build_result_def flush_remainder_fields)
  qed
  from run e ms dp wv show ?thesis
    by (intro exI [of _ ?res] exI [of _ ?sf]) (simp add: flush_remainder_fields)
qed

theorem wave_loop_visits_tree_once_witness:
  "root_path tree0 = '''' \<and> distinct (paths tree0) \<and> presents scan0 tree0
     \<and> 0 < batch_size share0 \<and> width tree0 \<le> max_parallel_dirs
     \<and> orchestrator_file_share ''t'' scan0 sink_accept share0 \<noteq> None
     \<and> mset (scanned (snd (the (orchestrator_file_share ''t'' scan0 sink_accept share0))))
         = {#'''', ''sub''#}
     \<and> directories_processed (fst (the (orchestrator_file_share ''t'' scan0 sink_accept share0)))
         = 2
     \<and> waves_completed (fst (the (orchestrator_file_share ''t'' scan0 sink_accept share0))) \<le> 2"
proof -
  have h1: "root_path tree0 = ''''" and h2: "distinct (paths tree0)"
    by (simp_all add: tree0_def)
  have h3: "presents scan0 tree0"
    by (simp add: presents_def tree0_def scan0_def result_subdirs_def)
  have h4: "0 < batch_size share0" by (simp add: share0_def)
  have dp: "depth tree0 = 2" by (simp add: tree0_def)
  have w: "width tree0 \<le> max_parallel_dirs"
    by (simp add: width_def dp max_parallel_dirs_def tree0_def eval_nat_numeral)
  have c: "card (set (paths tree0)) = 2" by (simp add: tree0_def)
  from wave_loop_visits_tree_once [OF h1 h2 h3 h4, of "''t''" sink_accept]
  obtain res sf where
    run: "orchestrator_file_share ''t'' scan0 sink_accept share0 = Some (res, sf)"
    and ms: "mset (scanned sf) = mset (paths tree0)"
    and n: "directories_processed res = card (set (paths tree0))"
    and wv: "width tree0 \<le> max_parallel_dirs \<longrightarrow> waves_completed res \<le> depth tree0"
    by blast
  from ms have ms': "mset (scanned sf) = {#'''', ''sub''#}"
    by (simp add: tree0_def)
  from run ms' n wv w h1 h2 h3 h4 show ?thesis
    by (simp add: c dp)
qed


end
